theory Spec2Isabelle
  imports Main
begin

section \<open>Go library functions used by the sources\<close>

text \<open>
  Go strings are byte sequences; they are modelled as HOL strings (lists of 8-bit
  characters). The functions of this section are those of Go's standard packages
  \<^verbatim>\<open>strings\<close> and \<^verbatim>\<open>strconv\<close> that the sources call, restricted to the arguments the
  sources pass: separators are the non-empty constants \<^verbatim>\<open>"://"\<close>, \<^verbatim>\<open>"/"\<close> and \<^verbatim>\<open>"."\<close>,
  the number base is 10 and the bit size is 32 or 64.
\<close>

definition HasPrefix :: "string \<Rightarrow> string \<Rightarrow> bool" where
  "HasPrefix s p = (length p \<le> length s \<and> take (length p) s = p)"

definition HasSuffix :: "string \<Rightarrow> string \<Rightarrow> bool" where
  "HasSuffix s suf = (length suf \<le> length s \<and> drop (length s - length suf) s = suf)"

text \<open>\<^verbatim>\<open>strings.Index\<close>: the position of the first occurrence; \<open>None\<close> stands for \<^verbatim>\<open>-1\<close>.\<close>

fun Index :: "string \<Rightarrow> string \<Rightarrow> nat option" where
  "Index [] sep = (if sep = [] then Some 0 else None)"
| "Index (c # cs) sep =
     (if HasPrefix (c # cs) sep then Some 0 else map_option Suc (Index cs sep))"

definition Contains :: "string \<Rightarrow> string \<Rightarrow> bool" where
  "Contains s sub = (Index s sub \<noteq> None)"

text \<open>
  \<^verbatim>\<open>strings.SplitN(s, sep, n)\<close> for \<open>n \<ge> 0\<close> and a non-empty separator: at most \<open>n\<close>
  pieces, the last one being the unsplit remainder.
\<close>

fun SplitN :: "string \<Rightarrow> string \<Rightarrow> nat \<Rightarrow> string list" where
  "SplitN s sep 0 = []"
| "SplitN s sep (Suc 0) = [s]"
| "SplitN s sep (Suc (Suc n)) =
     (case Index s sep of
        None \<Rightarrow> [s]
      | Some m \<Rightarrow> take m s # SplitN (drop (m + length sep) s) sep (Suc n))"

datatype num_error = ErrSyntax | ErrRange

definition is_digit :: "char \<Rightarrow> bool" where
  "is_digit c = (48 \<le> (of_char c :: nat) \<and> (of_char c :: nat) \<le> 57)"

definition digit_val :: "char \<Rightarrow> nat" where
  "digit_val c = of_char c - 48"

definition maxUint64 :: nat where
  "maxUint64 = 2 ^ 64 - 1"

text \<open>
  The digit loop of \<^verbatim>\<open>strconv.ParseUint\<close> in base 10. The accumulator is a \<^verbatim>\<open>uint64\<close>:
  the multiplication by ten is guarded by the cutoff test, the addition of the digit
  wraps around modulo \<open>2^64\<close> and the wrap is detected by \<^verbatim>\<open>n1 < n\<close>. A pair of a value
  and an optional error is returned, as in Go.
\<close>

fun ParseUint_loop :: "nat \<Rightarrow> nat \<Rightarrow> string \<Rightarrow> nat \<times> num_error option" where
  "ParseUint_loop maxVal n [] = (n, None)"
| "ParseUint_loop maxVal n (c # cs) =
     (if \<not> is_digit c then (0, Some ErrSyntax)
      else if n \<ge> maxUint64 div 10 + 1 then (maxVal, Some ErrRange)
      else let n' = n * 10; n1 = (n' + digit_val c) mod 2 ^ 64
           in if n1 < n' \<or> n1 > maxVal then (maxVal, Some ErrRange)
              else ParseUint_loop maxVal n1 cs)"

definition ParseUint :: "string \<Rightarrow> nat \<Rightarrow> nat \<times> num_error option" where
  "ParseUint s bitSize =
     (if s = [] then (0, Some ErrSyntax)
      else ParseUint_loop (2 ^ bitSize - 1) 0 s)"

text \<open>
  \<^verbatim>\<open>strconv.ParseInt(s, 10, bitSize)\<close>: an optional leading sign is picked off, the rest
  is converted unsigned and the range of the signed type is checked.
\<close>

definition ParseInt :: "string \<Rightarrow> nat \<Rightarrow> int \<times> num_error option" where
  "ParseInt s bitSize =
     (if s = [] then (0, Some ErrSyntax)
      else let neg = (hd s = CHR ''-'');
               s' = (if hd s = CHR ''+'' \<or> hd s = CHR ''-'' then tl s else s);
               (un, err) = ParseUint s' bitSize
           in if err \<noteq> None \<and> err \<noteq> Some ErrRange then (0, err)
              else let cutoff = (2::nat) ^ (bitSize - 1)
                   in if \<not> neg \<and> un \<ge> cutoff then (int cutoff - 1, Some ErrRange)
                      else if neg \<and> un > cutoff then (- int cutoff, Some ErrRange)
                      else (if neg then - int un else int un, None))"

section \<open>Service configuration\<close>

subsection \<open>Message size limits\<close>

text \<open>
  Go's \<^verbatim>\<open>*int\<close> arguments are optional values: \<open>None\<close> is the nil pointer and
  \<open>Some n\<close> a pointer to \<open>n\<close>. Only comparisons are made on the integers, so they are
  modelled as \<open>int\<close>.

  \<^verbatim>\<open>
  func min(a, b *int) *int {
      if *a < *b { return a }
      return b
  }
  \<close>
  The source function is only called with two non-nil pointers; it is modelled on the
  pointed-to values.
\<close>

definition min_ptr :: "int \<Rightarrow> int \<Rightarrow> int" where
  "min_ptr a b = (if a < b then a else b)"

text \<open>
  \<^verbatim>\<open>
  func getMaxSize(mcMax, doptMax *int, defaultVal int) *int {
      if mcMax == nil && doptMax == nil { return &defaultVal }
      if mcMax != nil && doptMax != nil { return min(mcMax, doptMax) }
      if mcMax != nil { return mcMax }
      return doptMax
  }
  \<close>
\<close>

definition getMaxSize :: "int option \<Rightarrow> int option \<Rightarrow> int \<Rightarrow> int option" where
  "getMaxSize mcMax doptMax defaultVal =
     (if mcMax = None \<and> doptMax = None then Some defaultVal
      else if mcMax \<noteq> None \<and> doptMax \<noteq> None then Some (min_ptr (the mcMax) (the doptMax))
      else if mcMax \<noteq> None then mcMax
      else doptMax)"

subsection \<open>Durations\<close>

text \<open>
  A \<^verbatim>\<open>time.Duration\<close> is a count of nanoseconds. It is modelled as an unbounded \<open>int\<close>:
  every value that \<open>parseDuration\<close> computes lies in the \<^verbatim>\<open>int64\<close> range (this is
  \<open>parseDuration_int64\<close> below), so Go's arithmetic never wraps there. The error is the
  formatted message: the offending string and, where present, the number error.
\<close>

datatype parse_error = Malformed string | MalformedNum string num_error

definition Second :: int where
  "Second = 1000000000"

text \<open>The loop \<^verbatim>\<open>for i := 9; i > len(ss[1]); i-- { f *= 10 }\<close>.\<close>

function pad_fraction :: "nat \<Rightarrow> nat \<Rightarrow> int \<Rightarrow> int" where
  "pad_fraction i len f = (if i > len then pad_fraction (i - 1) len (f * 10) else f)"
  by pat_completeness auto
termination
  by (relation "measure (\<lambda>(i, len, f). i - len)") auto

declare pad_fraction.simps [simp del]

text \<open>
  \<open>parseDuration\<close> takes a \<^verbatim>\<open>*string\<close> and returns a \<^verbatim>\<open>*time.Duration\<close> and an error:
  \<open>Inr None\<close> is the pair of two nils returned for a nil argument. The two blocks that
  parse the whole and the fractional part each yield the updated pair of \<^verbatim>\<open>d\<close> and
  \<^verbatim>\<open>hasDigits\<close>, or the error they return early.
\<close>

definition parseDuration :: "string option \<Rightarrow> parse_error + int option" where
  "parseDuration sp =
     (case sp of
        None \<Rightarrow> Inr None
      | Some s \<Rightarrow>
          if \<not> HasSuffix s ''s'' then Inl (Malformed s)
          else let ss = SplitN (take (length s - 1) s) ''.'' 3
               in if length ss > 2 then Inl (Malformed s)
                  else case (if length (ss ! 0) > 0
                             then (case ParseInt (ss ! 0) 32 of
                                     (i, Some e) \<Rightarrow> Inl (MalformedNum s e)
                                   | (i, None) \<Rightarrow> Inr (i * Second, True))
                             else Inr (0, False)) of
                         Inl e \<Rightarrow> Inl e
                       | Inr (d, hasDigits) \<Rightarrow>
                           (case (if length ss = 2 \<and> length (ss ! 1) > 0
                                  then if length (ss ! 1) > 9 then Inl (Malformed s)
                                       else (case ParseInt (ss ! 1) 64 of
                                               (f, Some e) \<Rightarrow> Inl (MalformedNum s e)
                                             | (f, None) \<Rightarrow>
                                                 Inr (d + pad_fraction 9 (length (ss ! 1)) f, True))
                                  else Inr (d, hasDigits)) of
                              Inl e \<Rightarrow> Inl e
                            | Inr (d', hasDigits') \<Rightarrow>
                                if \<not> hasDigits' then Inl (Malformed s) else Inr (Some d')))"

text \<open>The value of a string of decimal digits.\<close>

definition dec_step :: "nat \<Rightarrow> char \<Rightarrow> nat" where
  "dec_step n c = n * 10 + digit_val c"

definition dec_value :: "string \<Rightarrow> nat" where
  "dec_value cs = foldl dec_step 0 cs"

text \<open>
  The duration grammar as the specification words it: a string ending in \<open>s\<close>; the
  body has at most one decimal point, which splits it into whole and fractional seconds;
  the parts are digits, the fractional part at most nine of them; at least one part is
  present. A second decimal point would be a non-digit of the fractional part. The
  fractional part, padded on the right with zeros to nine digits, gives the nanoseconds.
\<close>

definition spec_whole :: "string \<Rightarrow> string" where
  "spec_whole s = takeWhile (\<lambda>x. x \<noteq> CHR ''.'') (butlast s)"

definition spec_fraction :: "string \<Rightarrow> string" where
  "spec_fraction s = tl (dropWhile (\<lambda>x. x \<noteq> CHR ''.'') (butlast s))"

definition spec_duration_grammar :: "string \<Rightarrow> bool" where
  "spec_duration_grammar s =
     (HasSuffix s ''s''
      \<and> list_all is_digit (spec_whole s) \<and> list_all is_digit (spec_fraction s)
      \<and> length (spec_fraction s) \<le> 9
      \<and> (spec_whole s \<noteq> [] \<or> spec_fraction s \<noteq> []))"

definition spec_duration_nanos :: "string \<Rightarrow> int" where
  "spec_duration_nanos s =
     int (dec_value (spec_whole s)) * 10 ^ 9
     + int (dec_value (spec_fraction s @ replicate (9 - length (spec_fraction s)) (CHR ''0'')))"

text \<open>Numerals with an optional sign, as \<^verbatim>\<open>strconv.ParseInt\<close> reads them.\<close>

definition strip_sign :: "string \<Rightarrow> string" where
  "strip_sign t =
     (case t of [] \<Rightarrow> [] | c # cs \<Rightarrow> if c = CHR ''+'' \<or> c = CHR ''-'' then cs else t)"

definition is_negative :: "string \<Rightarrow> bool" where
  "is_negative t = (case t of [] \<Rightarrow> False | c # cs \<Rightarrow> c = CHR ''-'')"

definition signed_numeral :: "string \<Rightarrow> bool" where
  "signed_numeral t = (strip_sign t \<noteq> [] \<and> list_all is_digit (strip_sign t))"

definition numeral_value :: "string \<Rightarrow> int" where
  "numeral_value t =
     (if is_negative t then - int (dec_value (strip_sign t)) else int (dec_value (strip_sign t)))"

definition int32_numeral :: "string \<Rightarrow> bool" where
  "int32_numeral t =
     (signed_numeral t \<and> - (2 ^ 31) \<le> numeral_value t \<and> numeral_value t < 2 ^ 31)"

section \<open>Dial targets\<close>

text \<open>
  \<^verbatim>\<open>
  func split2(s, sep string) (string, string, bool) {
      spl := strings.SplitN(s, sep, 2)
      if len(spl) < 2 { return "", "", false }
      return spl[0], spl[1], true
  }
  \<close>
\<close>

definition split2 :: "string \<Rightarrow> string \<Rightarrow> string \<times> string \<times> bool" where
  "split2 s sep =
     (let spl = SplitN s sep 2
      in if length spl < 2 then ([], [], False) else (spl ! 0, spl ! 1, True))"

record Target =
  Scheme :: string
  Authority :: string
  Endpoint :: string

definition parseTarget :: "string \<Rightarrow> Target" where
  "parseTarget target =
     (case split2 target ''://'' of
        (scheme, endpoint, ok) \<Rightarrow>
          if \<not> ok then \<lparr>Scheme = [], Authority = [], Endpoint = target\<rparr>
          else (case split2 endpoint ''/'' of
                  (authority, endpoint', ok') \<Rightarrow>
                    if \<not> ok' then \<lparr>Scheme = [], Authority = [], Endpoint = target\<rparr>
                    else \<lparr>Scheme = scheme, Authority = authority, Endpoint = endpoint'\<rparr>))"

text \<open>The string \<open>scheme://authority/endpoint\<close> reassembled from a parsed target.\<close>

definition target_string :: "Target \<Rightarrow> string" where
  "target_string t = Scheme t @ ''://'' @ Authority t @ ''/'' @ Endpoint t"

section \<open>Errors and status codes\<close>

text \<open>
  Modelled from the spec: the status codes. Package \<^verbatim>\<open>codes\<close> is not among the
  sources; the specification names the closed set of codes that the client uses.
\<close>

datatype code = OK | Canceled | Unknown | DeadlineExceeded | ResourceExhausted | Internal | Unavailable

text \<open>
  A Go \<^verbatim>\<open>error\<close> value; the nil error is \<open>None\<close> of type \<open>err option\<close>. \<open>EOF\<close> is
  \<^verbatim>\<open>io.EOF\<close>, \<open>StatusErr\<close> an error made by package \<^verbatim>\<open>status\<close>, \<open>PlainErr\<close> an error
  made by \<^verbatim>\<open>errors.New\<close> or any other error that carries no status.
\<close>

datatype err =
    EOF
  | StatusErr code string
  | ContextCanceled
  | ContextDeadlineExceeded
  | ConnectionErr string
  | PlainErr string

text \<open>
  Modelled from the spec: \<^verbatim>\<open>toRPCErr\<close>, which is defined in a file that is not among
  the sources. The specification's mapping rules: the end-of-stream marker and status
  errors pass unchanged, a context timeout becomes \<open>DeadlineExceeded\<close>, a cancelled
  context \<open>Canceled\<close>, a transport connection error \<open>Unavailable\<close>, and an unknown
  non-status error surfaces as \<open>Unknown\<close>. The sources agree where they speak of it:
  the comment on \<^verbatim>\<open>StreamHandler\<close> says that an error not produced by the status
  package gets \<^verbatim>\<open>codes.Unknown\<close>, and the server's \<^verbatim>\<open>RecvMsg\<close> builds an \<open>Internal\<close>
  status by hand before it calls \<^verbatim>\<open>toRPCErr\<close>.
\<close>

fun toRPCErr :: "err \<Rightarrow> err" where
  "toRPCErr EOF = EOF"
| "toRPCErr (StatusErr c m) = StatusErr c m"
| "toRPCErr ContextDeadlineExceeded = StatusErr DeadlineExceeded ''context deadline exceeded''"
| "toRPCErr ContextCanceled = StatusErr Canceled ''context canceled''"
| "toRPCErr (ConnectionErr m) = StatusErr Unavailable m"
| "toRPCErr (PlainErr m) = StatusErr Unknown m"

text \<open>
  Modelled from the spec: the error of a stream's final status (\<^verbatim>\<open>Status().Err()\<close> of
  package \<^verbatim>\<open>status\<close>, not among the sources): nil for the code \<open>OK\<close>, a structured
  error otherwise.
\<close>

definition Status_Err :: "code \<times> string \<Rightarrow> err option" where
  "Status_Err st = (if fst st = OK then None else Some (StatusErr (fst st) (snd st)))"

text \<open>An error result carries a status code when it is a status error with that code.\<close>

fun carries_code :: "err option \<Rightarrow> code \<Rightarrow> bool" where
  "carries_code (Some (StatusErr c m)) c' = (c = c')"
| "carries_code _ c' = False"

section \<open>Client streams\<close>

text \<open>A byte slice; HOL characters are bytes.\<close>

type_synonym bytes = "char list"

text \<open>
  The calls a stream makes on its collaborators (the transport, the balancer's done
  callback, the stats handler, the tracer, the call options, the context and the channelz
  counters) are recorded, in order, in a log.
\<close>

datatype event =
    CloseStream "err option"
  | BalancerDone "err option" bool bool
  | StatsEnd "err option"
  | StatsOutPayload
  | StatsInPayload
  | TraceFinish "err option"
  | OptionAfter nat
  | Cancel
  | Write bytes bytes bool
  | CallsFailed
  | CallsSucceeded
  | MsgSent
  | MsgRecv

record StreamDesc =
  ServerStreams :: bool
  ClientStreams :: bool

definition unaryStreamDesc :: StreamDesc where
  "unaryStreamDesc = \<lparr>ServerStreams = False, ClientStreams = False\<rparr>"

text \<open>
  Of the call information, the fields that the modelled functions read. The two size
  limits are never nil once \<open>getMaxSize\<close> has set them.
\<close>

record callInfo =
  failFast :: bool
  maxSendMessageSize :: int
  maxReceiveMessageSize :: int

text \<open>
  Of an attempt, the model keeps which optional collaborators are present
  (\<^verbatim>\<open>a.done != nil\<close>, \<^verbatim>\<open>a.statsHandler != nil\<close>, \<^verbatim>\<open>a.trInfo.tr != nil\<close>) and what
  the transport stream reports for \<^verbatim>\<open>BytesReceived()\<close>. The decompressor fields are
  left out: they are only passed on to \<^verbatim>\<open>recv\<close>, whose outcome the environment
  decides.
\<close>

record csAttempt =
  has_done :: bool
  has_statsHandler :: bool
  has_tr :: bool
  bytesReceived :: bool

text \<open>\<open>opts\<close> is the number of call options; option \<open>i\<close> has the hook \<open>OptionAfter i\<close>.\<close>

record clientStream =
  opts :: nat
  c :: callInfo
  desc :: StreamDesc
  sentLast :: bool
  finished :: bool
  attempt :: csAttempt
  log :: "event list"

definition emit :: "event list \<Rightarrow> clientStream \<Rightarrow> clientStream" where
  "emit evs cs = cs\<lparr>log := log cs @ evs\<rparr>"

text \<open>\<^verbatim>\<open>csAttempt.finish\<close>: the updated attempt and the calls it makes.\<close>

definition attempt_finish :: "csAttempt \<Rightarrow> err option \<Rightarrow> csAttempt \<times> event list" where
  "attempt_finish a e =
     (a\<lparr>has_tr := False\<rparr>,
      [CloseStream e]
      @ (if has_done a then [BalancerDone e True (bytesReceived a)] else [])
      @ (if has_statsHandler a then [StatsEnd e] else [])
      @ (if has_tr a then [TraceFinish e] else []))"

text \<open>
  \<^verbatim>\<open>clientStream.finish\<close>. The test and the setting of \<^verbatim>\<open>finished\<close> happen under the
  mutex, so one call is one atomic step on the flag. The first argument is
  \<^verbatim>\<open>channelz.IsOn()\<close>.
\<close>

definition finish :: "bool \<Rightarrow> clientStream \<Rightarrow> err option \<Rightarrow> clientStream" where
  "finish chz cs err0 =
     (let err = (if err0 = Some EOF then None else err0)
      in if finished cs then cs
         else let cs1 = cs\<lparr>finished := True\<rparr>;
                  cs2 = (if chz
                         then emit [if err \<noteq> None then CallsFailed else CallsSucceeded] cs1
                         else cs1);
                  (a, evs) = attempt_finish (attempt cs2) err;
                  cs3 = emit evs (cs2\<lparr>attempt := a\<rparr>);
                  cs4 = emit (map OptionAfter [0..<opts cs3]) cs3
              in emit [Cancel] cs4)"

text \<open>
  What the environment decides during one \<^verbatim>\<open>SendMsg\<close>: the results of \<^verbatim>\<open>encode\<close>, of
  \<^verbatim>\<open>compress\<close> (nil data when no compression is configured) and of the transport's
  \<^verbatim>\<open>Write\<close>.
\<close>

record send_env =
  encode_res :: "err + bytes"
  compress_res :: "err + bytes option"
  write_res :: "err option"

definition too_large :: err where
  "too_large = StatusErr ResourceExhausted ''trying to send message larger than max''"

text \<open>
  \<^verbatim>\<open>csAttempt.sendMsg\<close> is its body followed by its deferred function. The body yields
  the stream and the error it returns. \<^verbatim>\<open>msgHeader\<close> is defined in a file that is not
  among the sources and is a parameter: it maps the encoded and the compressed data to
  the frame header and the payload. The lazy trace log of the payload, here and in
  \<^verbatim>\<open>recvMsg\<close>, changes neither the stream nor the result and is left out.
\<close>

definition sendMsg_body ::
  "bool \<Rightarrow> (bytes \<Rightarrow> bytes option \<Rightarrow> bytes \<times> bytes) \<Rightarrow> send_env \<Rightarrow> clientStream
     \<Rightarrow> clientStream \<times> err option" where
  "sendMsg_body chz msgHeader env cs =
     (case encode_res env of
        Inl e \<Rightarrow> (cs, Some e)
      | Inr data \<Rightarrow>
          (case compress_res env of
             Inl e \<Rightarrow> (cs, Some e)
           | Inr compData \<Rightarrow>
               let hdr = fst (msgHeader data compData);
                   payload = snd (msgHeader data compData)
               in if int (length payload) > maxSendMessageSize (c cs)
                  then (cs, Some too_large)
                  else let cs1 = (if \<not> ClientStreams (desc cs)
                                  then cs\<lparr>sentLast := True\<rparr> else cs);
                           cs2 = emit [Write hdr payload (\<not> ClientStreams (desc cs))] cs1
                       in (case write_res env of
                             None \<Rightarrow>
                               (emit ((if has_statsHandler (attempt cs2)
                                       then [StatsOutPayload] else [])
                                      @ (if chz then [MsgSent] else [])) cs2,
                                None)
                           | Some e \<Rightarrow> (cs2, Some EOF))))"

definition sendMsg_deferred :: "bool \<Rightarrow> clientStream \<times> err option \<Rightarrow> clientStream \<times> err option" where
  "sendMsg_deferred chz r =
     (let cs = fst r;
          err = (if snd r = Some EOF \<and> \<not> ClientStreams (desc cs) then None else snd r)
      in if err \<noteq> None \<and> err \<noteq> Some EOF then (finish chz cs err, err) else (cs, err))"

definition sendMsg ::
  "bool \<Rightarrow> (bytes \<Rightarrow> bytes option \<Rightarrow> bytes \<times> bytes) \<Rightarrow> send_env \<Rightarrow> clientStream
     \<Rightarrow> clientStream \<times> err option" where
  "sendMsg chz msgHeader env cs = sendMsg_deferred chz (sendMsg_body chz msgHeader env cs)"

text \<open>
  What the environment decides during one \<^verbatim>\<open>RecvMsg\<close>: the results of the first and
  of the second framed read (\<^verbatim>\<open>recv\<close>, defined in a file that is not among the sources)
  and the final status of the transport stream.
\<close>

record recv_env =
  recv1 :: "err option"
  recv2 :: "err option"
  status :: "code \<times> string"

text \<open>
  \<^verbatim>\<open>csAttempt.recvMsg\<close>, likewise its body followed by its deferred function. The
  error of a second message on a call that does not stream responses is made by
  \<^verbatim>\<open>errors.New\<close> and passed to \<^verbatim>\<open>toRPCErr\<close>.
\<close>

definition protocol_violation :: err where
  "protocol_violation =
     PlainErr ''grpc: client streaming protocol violation: get <nil>, want <EOF>''"

definition recvMsg_body :: "bool \<Rightarrow> recv_env \<Rightarrow> clientStream \<Rightarrow> clientStream \<times> err option" where
  "recvMsg_body chz env cs =
     (case recv1 env of
        Some e \<Rightarrow>
          if e = EOF
          then (case Status_Err (status env) of
                  Some statusErr \<Rightarrow> (cs, Some statusErr)
                | None \<Rightarrow> (cs, Some EOF))
          else (cs, Some (toRPCErr e))
      | None \<Rightarrow>
          let cs1 = emit ((if has_statsHandler (attempt cs) then [StatsInPayload] else [])
                          @ (if chz then [MsgRecv] else [])) cs
          in if ServerStreams (desc cs1) then (cs1, None)
             else (case recv2 env of
                     None \<Rightarrow> (cs1, Some (toRPCErr protocol_violation))
                   | Some e \<Rightarrow>
                       if e = EOF then (cs1, Status_Err (status env))
                       else (cs1, Some (toRPCErr e))))"

text \<open>The error of the second framed read of a call that does not stream responses.\<close>

definition second_read_error :: "recv_env \<Rightarrow> err option" where
  "second_read_error env =
     (case recv2 env of
        None \<Rightarrow> Some (toRPCErr protocol_violation)
      | Some e \<Rightarrow> if e = EOF then Status_Err (status env) else Some (toRPCErr e))"

definition recvMsg_deferred :: "bool \<Rightarrow> clientStream \<times> err option \<Rightarrow> clientStream \<times> err option" where
  "recvMsg_deferred chz r =
     (if snd r \<noteq> None \<or> \<not> ServerStreams (desc (fst r)) then (finish chz (fst r) (snd r), snd r)
      else r)"

definition recvMsg :: "bool \<Rightarrow> recv_env \<Rightarrow> clientStream \<Rightarrow> clientStream \<times> err option" where
  "recvMsg chz env cs = recvMsg_deferred chz (recvMsg_body chz env cs)"

text \<open>\<^verbatim>\<open>clientStream.Header\<close>, given the error of the transport stream's \<^verbatim>\<open>Header()\<close>.\<close>

definition Header :: "bool \<Rightarrow> err option \<Rightarrow> clientStream \<Rightarrow> clientStream \<times> err option" where
  "Header chz herr cs =
     (case herr of
        None \<Rightarrow> (cs, None)
      | Some e \<Rightarrow> (finish chz cs (Some (toRPCErr e)), Some (toRPCErr e)))"

definition closeSend :: "clientStream \<Rightarrow> clientStream" where
  "closeSend cs =
     (if sentLast cs then cs
      else emit [Write [] [] True] (cs\<lparr>sentLast := True\<rparr>))"

text \<open>
  The operations that reach a live stream, each with the environment's part: the
  methods of the stream, and \<open>finish\<close> called by the goroutine that watches the contexts.
\<close>

datatype stream_op =
    OpSendMsg send_env
  | OpRecvMsg recv_env
  | OpHeader "err option"
  | OpCloseSend
  | OpFinish "err option"

fun apply_op ::
  "bool \<Rightarrow> (bytes \<Rightarrow> bytes option \<Rightarrow> bytes \<times> bytes) \<Rightarrow> clientStream \<Rightarrow> stream_op
     \<Rightarrow> clientStream" where
  "apply_op chz mh cs (OpSendMsg env) = fst (sendMsg chz mh env cs)"
| "apply_op chz mh cs (OpRecvMsg env) = fst (recvMsg chz env cs)"
| "apply_op chz mh cs (OpHeader herr) = fst (Header chz herr cs)"
| "apply_op chz mh cs OpCloseSend = closeSend cs"
| "apply_op chz mh cs (OpFinish e) = finish chz cs e"

definition run_ops ::
  "bool \<Rightarrow> (bytes \<Rightarrow> bytes option \<Rightarrow> bytes \<times> bytes) \<Rightarrow> clientStream \<Rightarrow> stream_op list
     \<Rightarrow> clientStream" where
  "run_ops chz mh cs ops = foldl (apply_op chz mh) cs ops"

text \<open>The vocabulary of the properties of \<open>finish\<close>.\<close>

fun is_termination :: "event \<Rightarrow> bool" where
  "is_termination (CloseStream e) = True"
| "is_termination (BalancerDone e s r) = True"
| "is_termination (StatsEnd e) = True"
| "is_termination (TraceFinish e) = True"
| "is_termination (OptionAfter i) = True"
| "is_termination Cancel = True"
| "is_termination CallsFailed = True"
| "is_termination CallsSucceeded = True"
| "is_termination _ = False"

fun is_CloseStream :: "event \<Rightarrow> bool" where
  "is_CloseStream (CloseStream e) = True"
| "is_CloseStream _ = False"

fun is_BalancerDone :: "event \<Rightarrow> bool" where
  "is_BalancerDone (BalancerDone e s r) = True"
| "is_BalancerDone _ = False"

fun is_Write :: "event \<Rightarrow> bool" where
  "is_Write (Write h p l) = True"
| "is_Write _ = False"

definition normalise_EOF :: "err option \<Rightarrow> err option" where
  "normalise_EOF e = (if e = Some EOF then None else e)"

text \<open>The termination actions of a stream, for the final error \<open>err\<close>.\<close>

definition finish_events :: "bool \<Rightarrow> clientStream \<Rightarrow> err option \<Rightarrow> event list" where
  "finish_events chz cs err =
     (if chz then [if err \<noteq> None then CallsFailed else CallsSucceeded] else [])
     @ [CloseStream err]
     @ (if has_done (attempt cs) then [BalancerDone err True (bytesReceived (attempt cs))] else [])
     @ (if has_statsHandler (attempt cs) then [StatsEnd err] else [])
     @ (if has_tr (attempt cs) then [TraceFinish err] else [])
     @ map OptionAfter [0..<opts cs]
     @ [Cancel]"

definition at_most_once :: "event list \<Rightarrow> bool" where
  "at_most_once l \<longleftrightarrow>
     count_list l Cancel \<le> 1 \<and> length (filter is_CloseStream l) \<le> 1
     \<and> length (filter is_BalancerDone l) \<le> 1 \<and> (\<forall>i. count_list l (OptionAfter i) \<le> 1)"

definition stream_inv :: "clientStream \<Rightarrow> bool" where
  "stream_inv cs \<longleftrightarrow>
     (if finished cs then count_list (log cs) Cancel = 1 \<and> at_most_once (log cs)
      else filter is_termination (log cs) = [])"

section \<open>Unary calls\<close>

text \<open>
  What the environment decides in one iteration of the loop of \<open>invoke\<close>: the result of
  \<^verbatim>\<open>newClientStream\<close> (an error, or the new stream), the environment of the \<^verbatim>\<open>SendMsg\<close>
  and of the \<^verbatim>\<open>RecvMsg\<close> on that stream, and what the transport stream answers to
  \<^verbatim>\<open>Unprocessed()\<close> after each of them.
\<close>

record attempt_env =
  new_stream :: "err + clientStream"
  send_env :: send_env
  unprocessed_after_send :: bool
  recv_env :: recv_env
  unprocessed_after_recv :: bool

text \<open>
  The result of \<open>invoke\<close>: the error it returns, and two counters that the model adds, the
  number of iterations of the loop and the number of client streams created.
\<close>

record invoke_result =
  returned :: "err option"
  iterations :: nat
  streams :: nat

text \<open>
  The loop of \<open>invoke\<close>. Iteration \<open>k\<close> takes its environment from \<open>env k\<close>; \<open>n\<close> counts
  the streams created so far. The stream is made for \<^verbatim>\<open>unaryStreamDesc\<close>.
\<close>

function invoke_loop ::
  "bool \<Rightarrow> (bytes \<Rightarrow> bytes option \<Rightarrow> bytes \<times> bytes) \<Rightarrow> (nat \<Rightarrow> attempt_env)
     \<Rightarrow> bool \<Rightarrow> nat \<Rightarrow> nat \<Rightarrow> invoke_result" where
  "invoke_loop chz mh env firstAttempt k n =
     (case new_stream (env k) of
        Inl e \<Rightarrow> \<lparr>returned = Some e, iterations = Suc k, streams = n\<rparr>
      | Inr cs0 \<Rightarrow>
          (case sendMsg chz mh (send_env (env k)) (cs0\<lparr>desc := unaryStreamDesc\<rparr>) of
             (cs1, Some e) \<Rightarrow>
               if \<not> failFast (c cs1) \<and> unprocessed_after_send (env k) \<and> firstAttempt
               then invoke_loop chz mh env False (Suc k) (Suc n)
               else \<lparr>returned = Some e, iterations = Suc k, streams = Suc n\<rparr>
           | (cs1, None) \<Rightarrow>
               (case recvMsg chz (recv_env (env k)) cs1 of
                  (cs2, Some e) \<Rightarrow>
                    if \<not> failFast (c cs2) \<and> unprocessed_after_recv (env k) \<and> firstAttempt
                    then invoke_loop chz mh env False (Suc k) (Suc n)
                    else \<lparr>returned = Some e, iterations = Suc k, streams = Suc n\<rparr>
                | (cs2, None) \<Rightarrow> \<lparr>returned = None, iterations = Suc k, streams = Suc n\<rparr>)))"
  by pat_completeness auto
termination
  by (relation "measure (\<lambda>(chz, mh, env, firstAttempt, k, n). if firstAttempt then 1 else 0)") auto

declare invoke_loop.simps [simp del]

definition invoke ::
  "bool \<Rightarrow> (bytes \<Rightarrow> bytes option \<Rightarrow> bytes \<times> bytes) \<Rightarrow> (nat \<Rightarrow> attempt_env) \<Rightarrow> invoke_result" where
  "invoke chz mh env = invoke_loop chz mh env True 0 0"

text \<open>
  The vocabulary of the property of \<open>invoke\<close>: the error with which one attempt alone
  ends, whether an attempt ends in an error of \<^verbatim>\<open>SendMsg\<close> or \<^verbatim>\<open>RecvMsg\<close> on a stream
  that is not fail-fast and that the transport reports as unprocessed, and whether an
  attempt creates a stream.
\<close>

definition attempt_error ::
  "bool \<Rightarrow> (bytes \<Rightarrow> bytes option \<Rightarrow> bytes \<times> bytes) \<Rightarrow> attempt_env \<Rightarrow> err option" where
  "attempt_error chz mh ae =
     (case new_stream ae of
        Inl e \<Rightarrow> Some e
      | Inr cs0 \<Rightarrow>
          (case sendMsg chz mh (send_env ae) (cs0\<lparr>desc := unaryStreamDesc\<rparr>) of
             (cs1, Some e) \<Rightarrow> Some e
           | (cs1, None) \<Rightarrow> snd (recvMsg chz (recv_env ae) cs1)))"

definition retry_condition ::
  "bool \<Rightarrow> (bytes \<Rightarrow> bytes option \<Rightarrow> bytes \<times> bytes) \<Rightarrow> attempt_env \<Rightarrow> bool" where
  "retry_condition chz mh ae =
     (case new_stream ae of
        Inl e \<Rightarrow> False
      | Inr cs0 \<Rightarrow>
          (case sendMsg chz mh (send_env ae) (cs0\<lparr>desc := unaryStreamDesc\<rparr>) of
             (cs1, Some e) \<Rightarrow> \<not> failFast (c cs1) \<and> unprocessed_after_send ae
           | (cs1, None) \<Rightarrow>
               (case recvMsg chz (recv_env ae) cs1 of
                  (cs2, Some e) \<Rightarrow> \<not> failFast (c cs2) \<and> unprocessed_after_recv ae
                | (cs2, None) \<Rightarrow> False)))"

definition stream_created :: "attempt_env \<Rightarrow> nat" where
  "stream_created ae = (case new_stream ae of Inl e \<Rightarrow> 0 | Inr cs \<Rightarrow> 1)"

section \<open>The context of a new client stream\<close>

record MethodConfig =
  WaitForReady :: "bool option"
  Timeout :: "int option"
  MaxReqSize :: "int option"
  MaxRespSize :: "int option"

text \<open>
  How \<^verbatim>\<open>newClientStream\<close> derives the context of the stream from the method
  configuration: \<^verbatim>\<open>context.WithTimeout\<close> or \<^verbatim>\<open>context.WithCancel\<close>.
\<close>

datatype ctx_derivation = WithTimeout int | WithCancel

definition newClientStream_context :: "MethodConfig \<Rightarrow> ctx_derivation" where
  "newClientStream_context mc =
     (if Timeout mc \<noteq> None \<and> the (Timeout mc) \<ge> 0 then WithTimeout (the (Timeout mc))
      else WithCancel)"

section \<open>The resolver wrapper\<close>











section \<open>Example inputs\<close>

text \<open>
  A framing function for the examples: a five-byte header and, as payload, the
  compressed data when there is some and the encoded data otherwise.
\<close>

definition example_msgHeader :: "bytes \<Rightarrow> bytes option \<Rightarrow> bytes \<times> bytes" where
  "example_msgHeader d cd = (replicate 5 (CHR ''h''), case cd of None \<Rightarrow> d | Some x \<Rightarrow> x)"


definition example_stream :: clientStream where
  "example_stream =
     \<lparr>opts = 2, c = \<lparr>failFast = False, maxSendMessageSize = 16, maxReceiveMessageSize = 16\<rparr>,
      desc = unaryStreamDesc, sentLast = False, finished = False,
      attempt = \<lparr>has_done = True, has_statsHandler = False, has_tr = False,
                 bytesReceived = False\<rparr>,
      log = []\<rparr>"

text \<open>
  Two attempts of a unary call: on the first, the transport fails the write, the read
  reports the connection error and the request is unprocessed; the second succeeds.
\<close>

definition example_attempts :: "nat \<Rightarrow> attempt_env" where
  "example_attempts k =
     (if k = 0
      then \<lparr>new_stream = Inr example_stream,
            send_env = \<lparr>encode_res = Inr ''request'', compress_res = Inr None,
                         write_res = Some (ConnectionErr ''transport is closing'')\<rparr>,
            unprocessed_after_send = True,
            recv_env = \<lparr>recv1 = Some (ConnectionErr ''transport is closing''), recv2 = None,
                         status = (Unavailable, ''transport is closing'')\<rparr>,
            unprocessed_after_recv = True\<rparr>
      else \<lparr>new_stream = Inr example_stream,
            send_env = \<lparr>encode_res = Inr ''request'', compress_res = Inr None,
                         write_res = None\<rparr>,
            unprocessed_after_send = False,
            recv_env = \<lparr>recv1 = None, recv2 = Some EOF, status = (OK, [])\<rparr>,
            unprocessed_after_recv = False\<rparr>)"

section \<open>Lemmas\<close>

subsection \<open>Splitting strings\<close>

lemma HasPrefix_iff: "HasPrefix s p \<longleftrightarrow> (\<exists>r. s = p @ r)"
  unfolding HasPrefix_def
  by (metis append_eq_conv_conj append_take_drop_id length_append le_add1)

lemma Index_Some_decomp:
  "Index s sep = Some m \<Longrightarrow> m + length sep \<le> length s \<and> s = take m s @ sep @ drop (m + length sep) s"
proof (induction s arbitrary: m)
  case Nil
  then show ?case by (simp split: if_splits)
next
  case (Cons c cs)
  show ?case
  proof (cases "HasPrefix (c # cs) sep")
    case True
    with Cons.prems have m0: "m = 0" by simp
    from True have "length sep \<le> length (c # cs)" "take (length sep) (c # cs) = sep"
      by (simp_all add: HasPrefix_def)
    then show ?thesis
      unfolding m0 by (metis add_0 append_Nil append_take_drop_id take_0)
  next
    case False
    with Cons.prems obtain k where k: "Index cs sep = Some k" "m = Suc k" by auto
    from Cons.IH[OF k(1)] k(2) show ?thesis by simp
  qed
qed

lemma Index_first:
  "s = a @ sep @ b \<Longrightarrow> \<exists>m. Index s sep = Some m \<and> m \<le> length a"
proof (induction a arbitrary: s)
  case Nil
  then have "HasPrefix s sep" by (auto simp: HasPrefix_iff)
  then have "Index s sep = Some 0" by (cases s) (simp_all add: HasPrefix_def)
  then show ?case by simp
next
  case (Cons x a)
  then obtain m where "Index (a @ sep @ b) sep = Some m" "m \<le> length a" by blast
  with Cons.prems show ?case by auto
qed

lemma Contains_iff: "Contains s sub \<longleftrightarrow> (\<exists>a b. s = a @ sub @ b)"
proof
  assume "Contains s sub"
  then obtain m where "Index s sub = Some m" by (auto simp: Contains_def)
  from Index_Some_decomp[OF this] show "\<exists>a b. s = a @ sub @ b" by blast
next
  assume "\<exists>a b. s = a @ sub @ b"
  then show "Contains s sub" using Index_first by (fastforce simp: Contains_def)
qed

lemma split2_None: "Index s sep = None \<Longrightarrow> split2 s sep = ([], [], False)"
  by (simp add: split2_def numeral_2_eq_2)

lemma split2_Some:
  "Index s sep = Some m \<Longrightarrow> split2 s sep = (take m s, drop (m + length sep) s, True)"
  by (simp add: split2_def numeral_2_eq_2)

lemma Index_scheme_sep:
  "\<not> Contains a ''://'' \<Longrightarrow> Index (a @ ''://'' @ r) ''://'' = Some (length a)"
proof (induction a)
  case Nil
  show ?case by (simp add: HasPrefix_def)
next
  case (Cons x a)
  from Cons.prems have no: "\<not> HasPrefix (x # a) ''://''" and rest: "\<not> Contains a ''://''"
    by (auto simp: Contains_def split: if_splits)
  from no have "\<not> HasPrefix (x # a @ ''://'' @ r) ''://''"
    by (cases a; cases "tl a") (auto simp: HasPrefix_def)
  with Cons.IH[OF rest] show ?case by simp
qed

lemma Index_slash:
  "CHR ''/'' \<notin> set a \<Longrightarrow> Index (a @ ''/'' @ r) ''/'' = Some (length a)"
  by (induction a) (auto simp: HasPrefix_def)

lemma Index_slash_None: "CHR ''/'' \<notin> set r \<Longrightarrow> Index r ''/'' = None"
  by (induction r) (auto simp: HasPrefix_def)

lemma Index_slash_None_iff: "Index r ''/'' = None \<longleftrightarrow> CHR ''/'' \<notin> set r"
  by (induction r) (auto simp: HasPrefix_def)

lemma Index_Some_no_earlier:
  "Index s sep = Some m \<Longrightarrow> sep \<noteq> [] \<Longrightarrow> \<not> Contains (take m s) sep"
proof
  assume idx: "Index s sep = Some m" and ne: "sep \<noteq> []" and ct: "Contains (take m s) sep"
  from ct obtain a b where ab: "take m s = a @ sep @ b" by (auto simp: Contains_iff)
  from Index_Some_decomp[OF idx] have len: "length (take m s) = m" by simp
  have "s = a @ sep @ (b @ drop m s)"
    using ab by (metis append.assoc append_take_drop_id)
  from Index_first[OF this] idx have "m \<le> length a" by simp
  moreover from ab len ne have "length a < m"
    by (metis length_append length_greater_0_conv less_add_same_cancel1 trans_less_add1 add.commute add.assoc)
  ultimately show False by simp
qed

lemma parseTarget_parts:
  "\<not> Contains (Scheme (parseTarget t)) ''://'' \<and> CHR ''/'' \<notin> set (Authority (parseTarget t))"
proof (cases "Index t ''://''")
  case None
  from split2_None[OF None] show ?thesis
    unfolding parseTarget_def by (simp add: Contains_def)
next
  case (Some m)
  define r where "r = drop (m + length ''://'') t"
  have sp: "split2 t ''://'' = (take m t, r, True)"
    unfolding r_def by (rule split2_Some[OF Some])
  show ?thesis
  proof (cases "Index r ''/''")
    case None
    from split2_None[OF None] show ?thesis
      unfolding parseTarget_def sp by (simp add: Contains_def)
  next
    case (Some k)
    from Index_Some_no_earlier[OF \<open>Index t ''://'' = Some m\<close>]
    have 1: "\<not> Contains (take m t) ''://''" by simp
    from Index_Some_no_earlier[OF Some] have "\<not> Contains (take k r) ''/''" by simp
    then have 2: "CHR ''/'' \<notin> set (take k r)"
      by (simp add: Contains_def Index_slash_None_iff)
    from split2_Some[OF Some] 1 2 show ?thesis
      unfolding parseTarget_def sp by simp
  qed
qed

lemma parseTarget_assembled:
  assumes "\<not> Contains scheme ''://''" and "CHR ''/'' \<notin> set authority"
  shows "parseTarget (scheme @ ''://'' @ authority @ ''/'' @ endpoint)
         = \<lparr>Scheme = scheme, Authority = authority, Endpoint = endpoint\<rparr>"
proof -
  have 1: "split2 (scheme @ ''://'' @ authority @ ''/'' @ endpoint) ''://''
           = (scheme, authority @ ''/'' @ endpoint, True)"
    using split2_Some[OF Index_scheme_sep[OF assms(1), of "authority @ ''/'' @ endpoint"]]
    by simp
  have 2: "split2 (authority @ ''/'' @ endpoint) ''/'' = (authority, endpoint, True)"
    using split2_Some[OF Index_slash[OF assms(2), of endpoint]] by simp
  show ?thesis unfolding parseTarget_def 1 prod.case 2 by simp
qed

lemma parseTarget_idem: "parseTarget (target_string (parseTarget t)) = parseTarget t"
  using parseTarget_assembled[of "Scheme (parseTarget t)" "Authority (parseTarget t)" "Endpoint (parseTarget t)"]
    parseTarget_parts[of t]
  by (simp add: target_string_def)

lemma parseTarget_decomp:
  "parseTarget t = \<lparr>Scheme = [], Authority = [], Endpoint = t\<rparr> \<or> target_string (parseTarget t) = t"
proof (cases "Index t ''://''")
  case None
  from split2_None[OF None] show ?thesis
    unfolding parseTarget_def by simp
next
  case (Some m)
  define r where "r = drop (m + length ''://'') t"
  have sp: "split2 t ''://'' = (take m t, r, True)"
    unfolding r_def by (rule split2_Some[OF Some])
  from Index_Some_decomp[OF Some] have t: "t = take m t @ ''://'' @ r"
    unfolding r_def by simp
  show ?thesis
  proof (cases "Index r ''/''")
    case None
    from split2_None[OF None] show ?thesis
      unfolding parseTarget_def sp by simp
  next
    case (Some k)
    from Index_Some_decomp[OF Some] have r: "r = take k r @ ''/'' @ drop (k + length ''/'') r"
      by simp
    have "parseTarget t = \<lparr>Scheme = take m t, Authority = take k r, Endpoint = drop (k + length ''/'') r\<rparr>"
      unfolding parseTarget_def sp prod.case split2_Some[OF Some] by simp
    then have "target_string (parseTarget t) = take m t @ ''://'' @ take k r @ ''/'' @ drop (k + length ''/'') r"
      by (simp add: target_string_def)
    also have "\<dots> = take m t @ ''://'' @ r" using r by simp
    also have "\<dots> = t" using t by simp
    finally show ?thesis by simp
  qed
qed

subsection \<open>Parsing numbers\<close>

lemma digit_val_le: "is_digit x \<Longrightarrow> digit_val x \<le> 9"
  unfolding is_digit_def digit_val_def by linarith

lemma foldl_dec_step_mono: "n \<le> foldl dec_step n cs"
proof (induction cs arbitrary: n)
  case Nil
  show ?case by simp
next
  case (Cons c cs)
  have "n \<le> dec_step n c" by (simp add: dec_step_def)
  also have "\<dots> \<le> foldl dec_step (dec_step n c) cs" by (rule Cons.IH)
  finally show ?case by simp
qed

lemma ParseUint_loop_digits:
  assumes "list_all is_digit cs" and "maxVal \<le> maxUint64" and "n \<le> maxVal"
  shows "ParseUint_loop maxVal n cs =
           (if foldl dec_step n cs \<le> maxVal then (foldl dec_step n cs, None)
            else (maxVal, Some ErrRange))"
  using assms(1,3)
proof (induction cs arbitrary: n)
  case Nil
  then show ?case by simp
next
  case (Cons c cs)
  then have dig: "is_digit c" and rest: "list_all is_digit cs" by simp_all
  have d9: "digit_val c \<le> 9" by (rule digit_val_le[OF dig])
  have mono: "dec_step n c \<le> foldl dec_step (dec_step n c) cs" by (rule foldl_dec_step_mono)
  show ?case
  proof (cases "n \<ge> maxUint64 div 10 + 1")
    case True
    then have "dec_step n c > maxUint64" by (simp add: dec_step_def maxUint64_def)
    with mono assms(2) have "\<not> foldl dec_step (dec_step n c) cs \<le> maxVal" by linarith
    with True dig show ?thesis by simp
  next
    case False
    then have n10: "n * 10 \<le> maxUint64" by (simp add: maxUint64_def)
    show ?thesis
    proof (cases "n * 10 + digit_val c < 2 ^ 64")
      case True
      then have n1: "(n * 10 + digit_val c) mod 2 ^ 64 = dec_step n c"
        by (simp add: dec_step_def)
      show ?thesis
      proof (cases "dec_step n c > maxVal")
        case True
        with mono have "\<not> foldl dec_step (dec_step n c) cs \<le> maxVal" by linarith
        with True \<open>\<not> n \<ge> maxUint64 div 10 + 1\<close> dig n1 show ?thesis
          by (simp add: Let_def)
      next
        case False
        have "\<not> dec_step n c < n * 10" by (simp add: dec_step_def)
        moreover from False have "dec_step n c \<le> maxVal" by simp
        ultimately show ?thesis
          using False \<open>\<not> n \<ge> maxUint64 div 10 + 1\<close> dig n1 Cons.IH[OF rest, of "dec_step n c"]
          by (simp add: Let_def)
      qed
    next
      case False
      then have big: "dec_step n c > maxUint64" by (simp add: dec_step_def maxUint64_def)
      from False d9 n10 have "(n * 10 + digit_val c) mod 2 ^ 64 = n * 10 + digit_val c - 2 ^ 64"
        by (simp add: maxUint64_def mod_if)
      moreover from False d9 n10 have "n * 10 + digit_val c - 2 ^ 64 < n * 10"
        by (simp add: maxUint64_def)
      ultimately have wrap: "(n * 10 + digit_val c) mod 2 ^ 64 < n * 10" by simp
      from big mono assms(2) have "\<not> foldl dec_step (dec_step n c) cs \<le> maxVal" by linarith
      with wrap \<open>\<not> n \<ge> maxUint64 div 10 + 1\<close> dig show ?thesis
        by (simp add: Let_def)
    qed
  qed
qed


lemma ParseUint_loop_nondigit:
  "\<not> list_all is_digit cs \<Longrightarrow> snd (ParseUint_loop maxVal n cs) \<noteq> None"
  by (induction cs arbitrary: n) (auto simp: Let_def)

lemma ParseUint_loop_error_value:
  "snd (ParseUint_loop maxVal n cs) = Some ErrRange \<Longrightarrow> fst (ParseUint_loop maxVal n cs) = maxVal"
  by (induction cs arbitrary: n) (auto simp: Let_def split: if_splits)

lemma foldl_dec_step_bound:
  "list_all is_digit cs \<Longrightarrow> foldl dec_step n cs < (n + 1) * 10 ^ length cs"
proof (induction cs arbitrary: n)
  case Nil
  show ?case by simp
next
  case (Cons c cs)
  then have dig: "is_digit c" and rest: "list_all is_digit cs" by simp_all
  from digit_val_le[OF dig] have "dec_step n c + 1 \<le> (n + 1) * 10" by (simp add: dec_step_def)
  then have "(dec_step n c + 1) * 10 ^ length cs \<le> (n + 1) * 10 * 10 ^ length cs"
    by (rule mult_le_mono1)
  also have "\<dots> = (n + 1) * 10 ^ length (c # cs)" by (simp add: algebra_simps)
  finally have "(dec_step n c + 1) * 10 ^ length cs \<le> (n + 1) * 10 ^ length (c # cs)" .
  moreover have "foldl dec_step n (c # cs) < (dec_step n c + 1) * 10 ^ length cs"
    using Cons.IH[OF rest, of "dec_step n c"] by simp
  ultimately show ?case by (rule less_le_trans[rotated])
qed

lemma dec_value_bound: "list_all is_digit cs \<Longrightarrow> dec_value cs < 10 ^ length cs"
  using foldl_dec_step_bound[of cs 0] by (simp add: dec_value_def)

lemma ParseUint_digits:
  assumes "cs \<noteq> []" and "list_all is_digit cs" and "0 < bits" and "bits \<le> 64"
  shows "ParseUint cs bits =
           (if dec_value cs < 2 ^ bits then (dec_value cs, None) else (2 ^ bits - 1, Some ErrRange))"
proof -
  have "(2::nat) ^ bits \<le> 2 ^ 64" using assms(4) by (rule power_increasing) simp
  then have le: "(2::nat) ^ bits - 1 \<le> maxUint64" by (simp add: maxUint64_def)
  have "(dec_value cs \<le> 2 ^ bits - 1) = (dec_value cs < 2 ^ bits)"
    by (metis Suc_pred' less_Suc_eq_le zero_less_numeral zero_less_power Suc_eq_plus1 add_diff_cancel_right')
  with ParseUint_loop_digits[OF assms(2) le, of 0] assms(1) show ?thesis
    by (simp add: ParseUint_def dec_value_def)
qed

lemma ParseInt_unfold:
  "t \<noteq> [] \<Longrightarrow> ParseInt t bits =
     (case ParseUint (strip_sign t) bits of
        (un, err) \<Rightarrow>
          if err \<noteq> None \<and> err \<noteq> Some ErrRange then (0, err)
          else if \<not> is_negative t \<and> un \<ge> 2 ^ (bits - 1) then (int (2 ^ (bits - 1)) - 1, Some ErrRange)
          else if is_negative t \<and> un > 2 ^ (bits - 1) then (- int (2 ^ (bits - 1)), Some ErrRange)
          else (if is_negative t then - int un else int un, None))"
  by (cases t) (auto simp: ParseInt_def strip_sign_def is_negative_def Let_def split: prod.splits)

lemma pow_half_less: "2 \<le> bits \<Longrightarrow> (2::nat) ^ (bits - 1) < 2 ^ bits - 1"
proof -
  assume "2 \<le> bits"
  then obtain k where k: "bits = Suc (Suc k)" by (metis Suc_le_D numeral_2_eq_2 Suc_le_mono le_0_eq not0_implies_Suc)
  have "(1::nat) < 2 ^ Suc k" by (metis one_less_numeral_iff one_less_power semiring_norm(76) zero_less_Suc)
  then show ?thesis unfolding k by simp
qed

lemma ParseInt_range_error:
  assumes "2 \<le> bits" and "t \<noteq> []" and "ParseUint (strip_sign t) bits = (2 ^ bits - 1, Some ErrRange)"
  shows "snd (ParseInt t bits) = Some ErrRange"
  using pow_half_less[OF assms(1)] assms(3)
  by (simp add: ParseInt_unfold[OF assms(2)])

lemma ParseInt_nondigit:
  assumes "2 \<le> bits" and "\<not> signed_numeral t"
  shows "snd (ParseInt t bits) \<noteq> None"
proof (cases "t = []")
  case True
  then show ?thesis by (simp add: ParseInt_def)
next
  case False
  show ?thesis
  proof (cases "strip_sign t = []")
    case True
    with False show ?thesis by (simp add: ParseInt_unfold ParseUint_def)
  next
    case ne: False
    with assms(2) have nd: "\<not> list_all is_digit (strip_sign t)" by (simp add: signed_numeral_def)
    obtain un err where r: "ParseUint_loop (2 ^ bits - 1) 0 (strip_sign t) = (un, err)"
      by (cases "ParseUint_loop (2 ^ bits - 1) 0 (strip_sign t)")
    from ParseUint_loop_nondigit[OF nd, of "2 ^ bits - 1" 0] r obtain e where e: "err = Some e" by auto
    show ?thesis
    proof (cases e)
      case ErrSyntax
      with r e ne False show ?thesis by (simp add: ParseInt_unfold ParseUint_def)
    next
      case ErrRange
      with ParseUint_loop_error_value[of "2 ^ bits - 1" 0 "strip_sign t"] r e
      have "un = 2 ^ bits - 1" by simp
      with r e ErrRange ne have "ParseUint (strip_sign t) bits = (2 ^ bits - 1, Some ErrRange)"
        by (simp add: ParseUint_def)
      from ParseInt_range_error[OF assms(1) False this] show ?thesis by simp
    qed
  qed
qed

lemma ParseInt_numeral:
  assumes "2 \<le> bits" and "bits \<le> 64" and "signed_numeral t"
  shows "ParseInt t bits =
           (if - (2 ^ (bits - 1)) \<le> numeral_value t \<and> numeral_value t < 2 ^ (bits - 1)
            then (numeral_value t, None)
            else (if is_negative t then - (2 ^ (bits - 1)) else 2 ^ (bits - 1) - 1, Some ErrRange))"
proof -
  from assms(3) have ne: "strip_sign t \<noteq> []" and dg: "list_all is_digit (strip_sign t)"
    by (simp_all add: signed_numeral_def)
  from ne have tne: "t \<noteq> []" by (auto simp: strip_sign_def)
  from assms(1) have b0: "0 < bits" by simp
  note pu = ParseUint_digits[OF ne dg b0 assms(2)]
  define cutoff where "cutoff = (2::nat) ^ (bits - 1)"
  define dv where "dv = dec_value (strip_sign t)"
  have C: "(2::int) ^ (bits - 1) = int cutoff" by (simp add: cutoff_def)
  have half: "cutoff < 2 ^ bits - 1" unfolding cutoff_def by (rule pow_half_less[OF assms(1)])
  have nv: "numeral_value t = (if is_negative t then - int dv else int dv)"
    by (simp add: numeral_value_def dv_def)
  have unf: "ParseInt t bits =
     (case ParseUint (strip_sign t) bits of
        (un, err) \<Rightarrow>
          if err \<noteq> None \<and> err \<noteq> Some ErrRange then (0, err)
          else if \<not> is_negative t \<and> un \<ge> cutoff then (int cutoff - 1, Some ErrRange)
          else if is_negative t \<and> un > cutoff then (- int cutoff, Some ErrRange)
          else (if is_negative t then - int un else int un, None))"
    unfolding cutoff_def by (rule ParseInt_unfold[OF tne])
  show ?thesis
  proof (cases "dv < 2 ^ bits")
    case True
    with pu have r: "ParseUint (strip_sign t) bits = (dv, None)" by (simp add: dv_def)
    show ?thesis
    proof (cases "is_negative t")
      case True
      have "0 < cutoff" by (simp add: cutoff_def)
      then have "(- int cutoff \<le> - int dv \<and> - int dv < int cutoff) = (dv \<le> cutoff)"
        by auto
      with True show ?thesis unfolding unf r C nv by auto
    next
      case False
      have "(- int cutoff \<le> int dv \<and> int dv < int cutoff) = (dv < cutoff)" by auto
      with False show ?thesis unfolding unf r C nv by auto
    qed
  next
    case False
    with pu have r: "ParseUint (strip_sign t) bits = (2 ^ bits - 1, Some ErrRange)"
      by (simp add: dv_def)
    from False half have big: "dv > cutoff" by linarith
    then have "\<not> (- int cutoff \<le> numeral_value t \<and> numeral_value t < int cutoff)"
      unfolding nv by auto
    with half show ?thesis unfolding unf r C nv by auto
  qed
qed

lemma ParseInt_ok_iff:
  assumes "2 \<le> bits" and "bits \<le> 64"
  shows "ParseInt t bits = (v, None) \<longleftrightarrow>
           signed_numeral t \<and> - (2 ^ (bits - 1)) \<le> numeral_value t
           \<and> numeral_value t < 2 ^ (bits - 1) \<and> v = numeral_value t"
proof (cases "signed_numeral t")
  case True
  from ParseInt_numeral[OF assms True] True show ?thesis by auto
next
  case False
  from ParseInt_nondigit[OF assms(1) False] False show ?thesis by auto
qed

subsection \<open>Parsing durations\<close>

lemma SplitN_2:
  "SplitN s sep 2 = (case Index s sep of None \<Rightarrow> [s] | Some m \<Rightarrow> [take m s, drop (m + length sep) s])"
  by (simp add: numeral_2_eq_2 split: option.split)

lemma SplitN_3:
  "SplitN s sep 3 = (case Index s sep of None \<Rightarrow> [s]
      | Some m \<Rightarrow> take m s # SplitN (drop (m + length sep) s) sep 2)"
  by (simp add: numeral_3_eq_3 numeral_2_eq_2 split: option.split)

lemma Index_char: "x \<notin> set a \<Longrightarrow> Index (a @ x # r) [x] = Some (length a)"
  by (induction a) (auto simp: HasPrefix_def)

lemma Index_char_None_iff: "Index r [x] = None \<longleftrightarrow> x \<notin> set r"
  by (induction r) (auto simp: HasPrefix_def)

lemma pad_fraction_eq: "pad_fraction i len f = f * 10 ^ (i - len)"
proof (induction i len f rule: pad_fraction.induct)
  case (1 i len f)
  show ?case
  proof (cases "i > len")
    case True
    then have "i - len = Suc (i - 1 - len)" by simp
    with True "1.IH" show ?thesis by (simp add: pad_fraction.simps[of i])
  next
    case False
    then show ?thesis by (simp add: pad_fraction.simps[of i])
  qed
qed

lemma SplitN_no_dot: "CHR ''.'' \<notin> set body \<Longrightarrow> SplitN body ''.'' 3 = [body]"
  by (simp add: SplitN_3 Index_char_None_iff[THEN iffD2])

lemma SplitN_one_dot:
  assumes "CHR ''.'' \<notin> set ip" and "CHR ''.'' \<notin> set fp"
  shows "SplitN (ip @ ''.'' @ fp) ''.'' 3 = [ip, fp]"
  using Index_char[OF assms(1), of fp] Index_char_None_iff[THEN iffD2, OF assms(2)]
  by (simp add: SplitN_3 SplitN_2)

lemma SplitN_many_dots:
  assumes "CHR ''.'' \<notin> set a" and "CHR ''.'' \<notin> set b"
  shows "length (SplitN (a @ ''.'' @ b @ ''.'' @ r) ''.'' 3) = 3"
  using Index_char[OF assms(1), of "b @ ''.'' @ r"] Index_char[OF assms(2), of r]
  by (simp add: SplitN_3 SplitN_2)

lemma dots_cases:
  obtains (none) "CHR ''.'' \<notin> set body"
  | (one) ip fp where "body = ip @ ''.'' @ fp" "CHR ''.'' \<notin> set ip" "CHR ''.'' \<notin> set fp"
  | (many) a b r where "body = a @ ''.'' @ b @ ''.'' @ r" "CHR ''.'' \<notin> set a" "CHR ''.'' \<notin> set b"
proof (cases "CHR ''.'' \<in> set body")
  case False
  then show ?thesis by (rule none)
next
  case True
  then obtain ip r where 1: "body = ip @ CHR ''.'' # r" "CHR ''.'' \<notin> set ip"
    by (meson split_list_first)
  show ?thesis
  proof (cases "CHR ''.'' \<in> set r")
    case False
    with 1 show ?thesis by (intro one[of ip r]) simp_all
  next
    case True
    then obtain b r' where 2: "r = b @ CHR ''.'' # r'" "CHR ''.'' \<notin> set b"
      by (meson split_list_first)
    with 1 show ?thesis by (intro many[of ip b r']) simp_all
  qed
qed

lemma parseDuration_body:
  "parseDuration (Some (body @ ''s'')) =
     (let s = body @ ''s''; ss = SplitN body ''.'' 3
      in if length ss > 2 then Inl (Malformed s)
         else case (if length (ss ! 0) > 0
                    then (case ParseInt (ss ! 0) 32 of
                            (i, Some e) \<Rightarrow> Inl (MalformedNum s e)
                          | (i, None) \<Rightarrow> Inr (i * Second, True))
                    else Inr (0, False)) of
                Inl e \<Rightarrow> Inl e
              | Inr (d, hasDigits) \<Rightarrow>
                  (case (if length ss = 2 \<and> length (ss ! 1) > 0
                         then if length (ss ! 1) > 9 then Inl (Malformed s)
                              else (case ParseInt (ss ! 1) 64 of
                                      (f, Some e) \<Rightarrow> Inl (MalformedNum s e)
                                    | (f, None) \<Rightarrow>
                                        Inr (d + pad_fraction 9 (length (ss ! 1)) f, True))
                         else Inr (d, hasDigits)) of
                     Inl e \<Rightarrow> Inl e
                   | Inr (d', hasDigits') \<Rightarrow>
                       if \<not> hasDigits' then Inl (Malformed s) else Inr (Some d')))"
  by (simp add: parseDuration_def HasSuffix_def Let_def)

lemma parseDuration_no_suffix:
  "\<not> HasSuffix s ''s'' \<Longrightarrow> parseDuration (Some s) = Inl (Malformed s)"
  by (simp add: parseDuration_def)

lemma HasSuffix_s_iff: "HasSuffix s ''s'' \<longleftrightarrow> (\<exists>body. s = body @ ''s'')"
proof
  assume "HasSuffix s ''s''"
  then have "s = take (length s - 1) s @ ''s''"
    by (simp add: HasSuffix_def) (metis append_take_drop_id)
  then show "\<exists>body. s = body @ ''s''" ..
next
  assume "\<exists>body. s = body @ ''s''"
  then show "HasSuffix s ''s''" by (auto simp: HasSuffix_def)
qed

lemma parseDuration_many_dots:
  assumes "CHR ''.'' \<notin> set a" and "CHR ''.'' \<notin> set b"
  shows "parseDuration (Some (a @ ''.'' @ b @ ''.'' @ r @ ''s''))
         = Inl (Malformed (a @ ''.'' @ b @ ''.'' @ r @ ''s''))"
  using parseDuration_body[of "a @ ''.'' @ b @ ''.'' @ r"] SplitN_many_dots[OF assms, of r]
  by (simp add: Let_def)

lemma parseDuration_no_dot:
  assumes "CHR ''.'' \<notin> set ip"
  shows "parseDuration (Some (ip @ ''s'')) =
     (if ip = [] then Inl (Malformed (ip @ ''s''))
      else case ParseInt ip 32 of
             (i, Some e) \<Rightarrow> Inl (MalformedNum (ip @ ''s'') e)
           | (i, None) \<Rightarrow> Inr (Some (i * Second)))"
  unfolding parseDuration_body SplitN_no_dot[OF assms]
  by (simp add: Let_def split: prod.split option.split)

lemma parseDuration_one_dot:
  assumes "CHR ''.'' \<notin> set ip" and "CHR ''.'' \<notin> set fp"
  shows "parseDuration (Some (ip @ ''.'' @ fp @ ''s'')) =
     (case (if ip \<noteq> []
            then (case ParseInt ip 32 of
                    (i, Some e) \<Rightarrow> Inl (MalformedNum (ip @ ''.'' @ fp @ ''s'') e)
                  | (i, None) \<Rightarrow> Inr (i * Second))
            else Inr 0) of
        Inl e \<Rightarrow> Inl e
      | Inr d \<Rightarrow>
          if fp \<noteq> []
          then if length fp > 9 then Inl (Malformed (ip @ ''.'' @ fp @ ''s''))
               else (case ParseInt fp 64 of
                       (f, Some e) \<Rightarrow> Inl (MalformedNum (ip @ ''.'' @ fp @ ''s'') e)
                     | (f, None) \<Rightarrow> Inr (Some (d + f * 10 ^ (9 - length fp))))
          else if ip = [] then Inl (Malformed (ip @ ''.'' @ fp @ ''s'')) else Inr (Some d))"
  using parseDuration_body[of "ip @ ''.'' @ fp"]
  unfolding SplitN_one_dot[OF assms]
  by (simp add: Let_def pad_fraction_eq split: prod.split option.split)

lemma numeral_value_Nil: "numeral_value [] = 0"
  by (simp add: numeral_value_def is_negative_def strip_sign_def dec_value_def)

lemma signed_numeral_not_Nil: "signed_numeral t \<Longrightarrow> t \<noteq> []"
  by (auto simp: signed_numeral_def strip_sign_def)

lemma length_strip_sign: "length (strip_sign t) \<le> length t"
  by (cases t) (simp_all add: strip_sign_def)

lemma numeral_value_bound:
  assumes "signed_numeral t"
  shows "\<bar>numeral_value t\<bar> < 10 ^ length t"
proof -
  from assms have "list_all is_digit (strip_sign t)" by (simp add: signed_numeral_def)
  then have "dec_value (strip_sign t) < 10 ^ length (strip_sign t)" by (rule dec_value_bound)
  also have "\<dots> \<le> 10 ^ length t"
    by (rule power_increasing[OF length_strip_sign]) simp
  finally have "int (dec_value (strip_sign t)) < int (10 ^ length t)"
    by (simp only: of_nat_less_iff)
  then show ?thesis by (simp add: numeral_value_def)
qed

lemma fraction_in_int64:
  assumes "signed_numeral fp" and "length fp \<le> 9"
  shows "- (2 ^ 63) \<le> numeral_value fp \<and> numeral_value fp < 2 ^ 63"
proof -
  have "(10::int) ^ length fp \<le> 10 ^ 9" using assms(2) by (rule power_increasing) simp
  with numeral_value_bound[OF assms(1)] have "\<bar>numeral_value fp\<bar> < 10 ^ 9" by linarith
  then show ?thesis by (simp add: abs_less_iff)
qed

lemma ParseInt32_ok_iff:
  "ParseInt t 32 = (v, None) \<longleftrightarrow> int32_numeral t \<and> v = numeral_value t"
  using ParseInt_ok_iff[of 32 t v] by (auto simp: int32_numeral_def)

lemma ParseInt64_fraction_ok_iff:
  assumes "length fp \<le> 9"
  shows "ParseInt fp 64 = (v, None) \<longleftrightarrow> signed_numeral fp \<and> v = numeral_value fp"
  using ParseInt_ok_iff[of 64 fp v] fraction_in_int64[OF _ assms] by auto

lemma parseDuration_no_dot_iff:
  assumes "CHR ''.'' \<notin> set ip"
  shows "parseDuration (Some (ip @ ''s'')) = Inr (Some d) \<longleftrightarrow>
           int32_numeral ip \<and> d = numeral_value ip * 10 ^ 9"
proof (cases "ip = []")
  case True
  with parseDuration_no_dot[OF assms] show ?thesis
    by (simp add: int32_numeral_def signed_numeral_def strip_sign_def)
next
  case False
  obtain i err where r: "ParseInt ip 32 = (i, err)" by (cases "ParseInt ip 32")
  show ?thesis
  proof (cases err)
    case None
    with r ParseInt32_ok_iff[of ip i] False show ?thesis
      by (auto simp: parseDuration_no_dot[OF assms] Second_def)
  next
    case (Some e)
    with r ParseInt32_ok_iff[of ip "numeral_value ip"] False show ?thesis
      by (auto simp: parseDuration_no_dot[OF assms])
  qed
qed

lemma parseDuration_one_dot_iff:
  assumes "CHR ''.'' \<notin> set ip" and "CHR ''.'' \<notin> set fp"
  shows "parseDuration (Some (ip @ ''.'' @ fp @ ''s'')) = Inr (Some d) \<longleftrightarrow>
           (ip = [] \<or> int32_numeral ip) \<and> (fp = [] \<or> length fp \<le> 9 \<and> signed_numeral fp)
           \<and> (ip \<noteq> [] \<or> fp \<noteq> [])
           \<and> d = numeral_value ip * 10 ^ 9 + numeral_value fp * 10 ^ (9 - length fp)"
proof -
  obtain i ierr where ri: "ParseInt ip 32 = (i, ierr)" by (cases "ParseInt ip 32")
  obtain f ferr where rf: "ParseInt fp 64 = (f, ferr)" by (cases "ParseInt fp 64")
  have I: "ierr = None \<longleftrightarrow> int32_numeral ip" "ierr = None \<Longrightarrow> i = numeral_value ip"
    using ri ParseInt32_ok_iff[of ip i] ParseInt32_ok_iff[of ip "numeral_value ip"] by auto
  have F: "length fp \<le> 9 \<Longrightarrow> ferr = None \<longleftrightarrow> signed_numeral fp"
          "length fp \<le> 9 \<Longrightarrow> ferr = None \<Longrightarrow> f = numeral_value fp"
    using rf ParseInt64_fraction_ok_iff[of fp f] ParseInt64_fraction_ok_iff[of fp "numeral_value fp"]
    by auto
  show ?thesis
    unfolding parseDuration_one_dot[OF assms] ri rf
    using I F
    by (cases ierr; cases ferr; cases "ip = []"; cases "fp = []"; cases "length fp \<le> 9")
       (auto simp: Second_def numeral_value_Nil)
qed

lemmas duration_eval =
  parseDuration_def Let_def SplitN_3 SplitN_2 HasSuffix_def HasPrefix_def ParseInt_def
  ParseUint_def is_digit_def digit_val_def maxUint64_def Second_def pad_fraction_eq

lemma parseDuration_long_fraction:
  assumes "length fp > 9"
  shows "parseDuration (Some (ip @ ''.'' @ fp @ ''s'')) \<noteq> Inr (Some d)"
proof (cases "CHR ''.'' \<in> set ip")
  case True
  then obtain a r where a: "ip = a @ CHR ''.'' # r" "CHR ''.'' \<notin> set a"
    by (meson split_list_first)
  show ?thesis
  proof (cases "CHR ''.'' \<in> set r")
    case True
    then obtain b r' where b: "r = b @ CHR ''.'' # r'" "CHR ''.'' \<notin> set b"
      by (meson split_list_first)
    from parseDuration_many_dots[OF a(2) b(2), of "r' @ ''.'' @ fp"] a(1) b(1)
    show ?thesis by simp
  next
    case False
    from parseDuration_many_dots[OF a(2) False, of fp] a(1) show ?thesis by simp
  qed
next
  case ipfree: False
  show ?thesis
  proof (cases "CHR ''.'' \<in> set fp")
    case True
    then obtain b r' where b: "fp = b @ CHR ''.'' # r'" "CHR ''.'' \<notin> set b"
      by (meson split_list_first)
    from parseDuration_many_dots[OF ipfree b(2), of r'] b(1) show ?thesis by simp
  next
    case False
    from assms parseDuration_one_dot_iff[OF ipfree False, of d] show ?thesis by auto
  qed
qed

lemma parseDuration_accepts:
  "parseDuration (Some s) = Inr (Some d) \<longleftrightarrow>
     (\<exists>ip. s = ip @ ''s'' \<and> CHR ''.'' \<notin> set ip \<and> int32_numeral ip
           \<and> d = numeral_value ip * 10 ^ 9)
     \<or> (\<exists>ip fp. s = ip @ ''.'' @ fp @ ''s'' \<and> CHR ''.'' \<notin> set ip \<and> CHR ''.'' \<notin> set fp
           \<and> (ip = [] \<or> int32_numeral ip)
           \<and> (fp = [] \<or> length fp \<le> 9 \<and> signed_numeral fp)
           \<and> (ip \<noteq> [] \<or> fp \<noteq> [])
           \<and> d = numeral_value ip * 10 ^ 9 + numeral_value fp * 10 ^ (9 - length fp))"
  (is "?L \<longleftrightarrow> ?A \<or> ?B")
proof
  assume L: ?L
  have "HasSuffix s ''s''"
    using L parseDuration_no_suffix[of s] by auto
  then obtain body where s: "s = body @ ''s''" by (auto simp: HasSuffix_s_iff)
  show "?A \<or> ?B"
  proof (cases body rule: dots_cases)
    case none
    with L s parseDuration_no_dot_iff[OF none, of d] have ?A by auto
    then show ?thesis ..
  next
    case (one ip fp)
    with L s parseDuration_one_dot_iff[OF one(2,3), of d] have ?B by auto
    then show ?thesis ..
  next
    case (many a b r)
    with L s parseDuration_many_dots[OF many(2,3), of r] show ?thesis by simp
  qed
next
  assume "?A \<or> ?B"
  then show ?L
  proof
    assume ?A
    then obtain ip where "s = ip @ ''s''" "CHR ''.'' \<notin> set ip" "int32_numeral ip"
      "d = numeral_value ip * 10 ^ 9" by blast
    then show ?L using parseDuration_no_dot_iff[of ip d] by simp
  next
    assume ?B
    then obtain ip fp where "s = ip @ ''.'' @ fp @ ''s''" "CHR ''.'' \<notin> set ip" "CHR ''.'' \<notin> set fp"
      "ip = [] \<or> int32_numeral ip" "fp = [] \<or> length fp \<le> 9 \<and> signed_numeral fp"
      "ip \<noteq> [] \<or> fp \<noteq> []"
      "d = numeral_value ip * 10 ^ 9 + numeral_value fp * 10 ^ (9 - length fp)" by blast
    then show ?L using parseDuration_one_dot_iff[of ip fp d] by simp
  qed
qed

lemma is_digit_not_dot: "list_all is_digit ds \<Longrightarrow> CHR ''.'' \<notin> set ds"
  by (induction ds) (auto simp: is_digit_def)

lemma parseDuration_minus_digits:
  assumes "ds \<noteq> []" and "list_all is_digit ds" and "dec_value ds \<le> 2 ^ 31"
  shows "parseDuration (Some (CHR ''-'' # ds @ ''s'')) = Inr (Some (- int (dec_value ds) * 10 ^ 9))"
proof -
  have nd: "CHR ''.'' \<notin> set (CHR ''-'' # ds)" using is_digit_not_dot[OF assms(2)] by simp
  have sn: "signed_numeral (CHR ''-'' # ds)" using assms(1,2)
    by (simp add: signed_numeral_def strip_sign_def)
  have nv: "numeral_value (CHR ''-'' # ds) = - int (dec_value ds)"
    by (simp add: numeral_value_def is_negative_def strip_sign_def)
  have "int (dec_value ds) \<le> int (2 ^ 31)" using assms(3) by (simp only: of_nat_le_iff)
  then have "int32_numeral (CHR ''-'' # ds)"
    using sn by (simp add: int32_numeral_def nv)
  with parseDuration_no_dot_iff[OF nd, of "- int (dec_value ds) * 10 ^ 9"] nv
  show ?thesis by simp
qed

subsection \<open>The termination of a stream\<close>

lemma finish_finished: "finished cs \<Longrightarrow> finish chz cs e = cs"
  by (simp add: finish_def)

lemma finish_first:
  "\<not> finished cs \<Longrightarrow>
     finish chz cs e = cs\<lparr>finished := True, attempt := (attempt cs)\<lparr>has_tr := False\<rparr>,
                          log := log cs @ finish_events chz cs (normalise_EOF e)\<rparr>"
  by (simp add: finish_def finish_events_def normalise_EOF_def attempt_finish_def emit_def Let_def)

lemma finish_idem: "finish chz (finish chz cs e) e' = finish chz cs e"
  by (cases "finished cs") (simp_all add: finish_finished finish_first)

lemma finished_finish: "finished (finish chz cs e)"
  by (cases "finished cs") (simp_all add: finish_finished finish_first)

lemma c_finish: "c (finish chz cs e) = c cs"
  by (cases "finished cs") (simp_all add: finish_finished finish_first)

lemma count_OptionAfter_upt:
  "count_list (map OptionAfter [0..<n]) (OptionAfter i) = (if i < n then 1 else 0)"
  by (induction n) auto

lemma count_Cancel_map_OptionAfter: "count_list (map OptionAfter xs) Cancel = 0"
  by (induction xs) auto

lemma filter_CloseStream_map_OptionAfter: "filter is_CloseStream (map OptionAfter xs) = []"
  by (induction xs) auto

lemma filter_BalancerDone_map_OptionAfter: "filter is_BalancerDone (map OptionAfter xs) = []"
  by (induction xs) auto

lemma filter_Write_map_OptionAfter: "filter is_Write (map OptionAfter xs) = []"
  by (induction xs) auto

lemma finish_events_once:
  "count_list (finish_events chz cs e) Cancel = 1 \<and> at_most_once (finish_events chz cs e)"
  by (simp add: finish_events_def at_most_once_def count_Cancel_map_OptionAfter
      filter_CloseStream_map_OptionAfter filter_BalancerDone_map_OptionAfter
      count_OptionAfter_upt)

lemma filter_Write_finish: "filter is_Write (log (finish chz cs e)) = filter is_Write (log cs)"
proof (cases "finished cs")
  case True
  then show ?thesis by (simp add: finish_finished)
next
  case False
  have "filter is_Write (finish_events chz cs e') = []" for e'
    by (simp add: finish_events_def filter_Write_map_OptionAfter)
  with False show ?thesis by (simp add: finish_first)
qed

lemma no_termination_counts:
  assumes "filter is_termination l = []"
  shows "count_list l Cancel = 0" and "filter is_CloseStream l = []"
    and "filter is_BalancerDone l = []" and "count_list l (OptionAfter i) = 0"
proof -
  from assms have all: "\<forall>ev \<in> set l. \<not> is_termination ev" by (simp add: filter_empty_conv)
  then have "Cancel \<notin> set l" and "OptionAfter i \<notin> set l" by auto
  then show "count_list l Cancel = 0" and "count_list l (OptionAfter i) = 0"
    by (simp_all add: count_list_0_iff)
  have "\<And>ev. is_CloseStream ev \<Longrightarrow> is_termination ev" by (case_tac ev) simp_all
  with all show "filter is_CloseStream l = []" by (auto simp: filter_empty_conv)
  have "\<And>ev. is_BalancerDone ev \<Longrightarrow> is_termination ev" by (case_tac ev) simp_all
  with all show "filter is_BalancerDone l = []" by (auto simp: filter_empty_conv)
qed

lemma stream_inv_finish: "stream_inv cs \<Longrightarrow> stream_inv (finish chz cs e)"
proof (cases "finished cs")
  case True
  then show "stream_inv cs \<Longrightarrow> ?thesis" by (simp add: finish_finished)
next
  case False
  assume "stream_inv cs"
  with False have none: "filter is_termination (log cs) = []" by (simp add: stream_inv_def)
  note z = no_termination_counts[OF none]
  from finish_events_once[of chz cs "normalise_EOF e"] z
  show ?thesis
    by (simp add: finish_first[OF False] stream_inv_def at_most_once_def)
qed

lemma stream_inv_emit:
  assumes "filter is_termination evs = []" and "stream_inv cs"
  shows "stream_inv (emit evs cs)"
  using assms(2) no_termination_counts[OF assms(1)] assms(1)
  by (cases "finished cs") (simp_all add: stream_inv_def emit_def at_most_once_def)

lemma stream_inv_sentLast: "stream_inv (cs\<lparr>sentLast := b\<rparr>) = stream_inv cs"
  by (simp add: stream_inv_def)

lemma stream_inv_at_most_once: "stream_inv cs \<Longrightarrow> at_most_once (log cs)"
  by (cases "finished cs")
     (auto simp: stream_inv_def at_most_once_def no_termination_counts)

subsection \<open>Sending\<close>

lemma sendMsg_body_cases [case_names encode_err compress_err too_large write_err write_ok]:
  obtains
    (encode_err) e where "encode_res env = Inl e" "sendMsg_body chz mh env cs = (cs, Some e)"
  | (compress_err) d e where "encode_res env = Inr d" "compress_res env = Inl e"
      "sendMsg_body chz mh env cs = (cs, Some e)"
  | (too_large) d cd where "encode_res env = Inr d" "compress_res env = Inr cd"
      "int (length (snd (mh d cd))) > maxSendMessageSize (c cs)"
      "sendMsg_body chz mh env cs = (cs, Some too_large)"
  | (write_err) d cd we where "encode_res env = Inr d" "compress_res env = Inr cd"
      "\<not> int (length (snd (mh d cd))) > maxSendMessageSize (c cs)" "write_res env = Some we"
      "sendMsg_body chz mh env cs =
         (emit [Write (fst (mh d cd)) (snd (mh d cd)) (\<not> ClientStreams (desc cs))]
            (cs\<lparr>sentLast := sentLast cs \<or> \<not> ClientStreams (desc cs)\<rparr>), Some EOF)"
  | (write_ok) d cd where "encode_res env = Inr d" "compress_res env = Inr cd"
      "\<not> int (length (snd (mh d cd))) > maxSendMessageSize (c cs)" "write_res env = None"
      "sendMsg_body chz mh env cs =
         (emit ((if has_statsHandler (attempt cs) then [StatsOutPayload] else [])
                @ (if chz then [MsgSent] else []))
            (emit [Write (fst (mh d cd)) (snd (mh d cd)) (\<not> ClientStreams (desc cs))]
               (cs\<lparr>sentLast := sentLast cs \<or> \<not> ClientStreams (desc cs)\<rparr>)), None)"
proof (cases "encode_res env")
  case (Inl e)
  then show ?thesis by (intro encode_err[of e]) (simp_all add: sendMsg_body_def)
next
  case enc: (Inr d)
  show ?thesis
  proof (cases "compress_res env")
    case (Inl e)
    with enc show ?thesis by (intro compress_err[of d e]) (simp_all add: sendMsg_body_def)
  next
    case comp: (Inr cd)
    show ?thesis
    proof (cases "int (length (snd (mh d cd))) > maxSendMessageSize (c cs)")
      case True
      with enc comp show ?thesis
        by (intro too_large[of d cd]) (simp_all add: sendMsg_body_def Let_def)
    next
      case small: False
      have upd: "(if \<not> ClientStreams (desc cs) then cs\<lparr>sentLast := True\<rparr> else cs)
                 = cs\<lparr>sentLast := sentLast cs \<or> \<not> ClientStreams (desc cs)\<rparr>"
        by simp
      show ?thesis
      proof (cases "write_res env")
        case None
        with enc comp small show ?thesis
          by (intro write_ok[of d cd])
             (simp_all add: sendMsg_body_def Let_def upd emit_def del: if_split)
      next
        case (Some we)
        with enc comp small show ?thesis
          by (intro write_err[of d cd we])
             (simp_all add: sendMsg_body_def Let_def upd del: if_split)
      qed
    qed
  qed
qed


lemma fst_sendMsg_deferred:
  "fst (sendMsg_deferred chz r) = fst r \<or> (\<exists>e. fst (sendMsg_deferred chz r) = finish chz (fst r) e)"
  by (auto simp: sendMsg_deferred_def Let_def)


lemma sendMsg_deferred_error:
  "snd r = Some e \<Longrightarrow> e \<noteq> EOF \<Longrightarrow> sendMsg_deferred chz r = (finish chz (fst r) (Some e), Some e)"
  by (simp add: sendMsg_deferred_def Let_def)

lemma c_sendMsg: "c (fst (sendMsg chz mh env cs)) = c cs"
proof -
  have "c (fst (sendMsg_body chz mh env cs)) = c cs"
    by (cases rule: sendMsg_body_cases[where env = env and chz = chz and mh = mh and cs = cs]) (simp_all add: emit_def)
  with fst_sendMsg_deferred[of chz "sendMsg_body chz mh env cs"] show ?thesis
    by (auto simp: sendMsg_def c_finish)
qed

lemma stream_inv_sendMsg: "stream_inv cs \<Longrightarrow> stream_inv (fst (sendMsg chz mh env cs))"
proof -
  assume inv: "stream_inv cs"
  have "stream_inv (fst (sendMsg_body chz mh env cs))"
    by (cases rule: sendMsg_body_cases[where env = env and chz = chz and mh = mh and cs = cs])
       (simp_all add: inv stream_inv_emit stream_inv_sentLast)
  with fst_sendMsg_deferred[of chz "sendMsg_body chz mh env cs"] show ?thesis
    by (auto simp: sendMsg_def stream_inv_finish)
qed

subsection \<open>Receiving\<close>

lemma recvMsg_first_read_error:
  "recv1 env = Some e \<Longrightarrow> e \<noteq> EOF \<Longrightarrow>
     recvMsg chz env cs = (finish chz cs (Some (toRPCErr e)), Some (toRPCErr e))"
  by (simp add: recvMsg_def recvMsg_body_def recvMsg_deferred_def)

lemma recvMsg_first_read_EOF:
  "recv1 env = Some EOF \<Longrightarrow>
     recvMsg chz env cs =
       (case Status_Err (status env) of
          Some statusErr \<Rightarrow> (finish chz cs (Some statusErr), Some statusErr)
        | None \<Rightarrow> (finish chz cs (Some EOF), Some EOF))"
  by (simp add: recvMsg_def recvMsg_body_def recvMsg_deferred_def split: option.split)

lemma recvMsg_message_streaming:
  "recv1 env = None \<Longrightarrow> ServerStreams (desc cs) \<Longrightarrow>
     recvMsg chz env cs =
       (emit ((if has_statsHandler (attempt cs) then [StatsInPayload] else [])
              @ (if chz then [MsgRecv] else [])) cs, None)"
  by (simp add: recvMsg_def recvMsg_body_def recvMsg_deferred_def Let_def emit_def)

lemma recvMsg_message_unary:
  "recv1 env = None \<Longrightarrow> \<not> ServerStreams (desc cs) \<Longrightarrow>
     recvMsg chz env cs =
       (finish chz (emit ((if has_statsHandler (attempt cs) then [StatsInPayload] else [])
                          @ (if chz then [MsgRecv] else [])) cs) (second_read_error env),
        second_read_error env)"
  by (simp add: recvMsg_def recvMsg_body_def recvMsg_deferred_def Let_def emit_def
      second_read_error_def split: option.split)

lemma recvMsg_cases [case_names read_error read_EOF message_streaming message_unary]:
  obtains
    (read_error) e where "recv1 env = Some e" "e \<noteq> EOF"
  | (read_EOF) "recv1 env = Some EOF"
  | (message_streaming) "recv1 env = None" "ServerStreams (desc cs)"
  | (message_unary) "recv1 env = None" "\<not> ServerStreams (desc cs)"
  by (cases "recv1 env") auto

lemma c_recvMsg: "c (fst (recvMsg chz env cs)) = c cs"
  by (cases rule: recvMsg_cases[where env = env and cs = cs])
     (simp_all add: recvMsg_first_read_error recvMsg_first_read_EOF recvMsg_message_streaming
        recvMsg_message_unary c_finish emit_def split: option.split)

lemma stream_inv_recvMsg: "stream_inv cs \<Longrightarrow> stream_inv (fst (recvMsg chz env cs))"
  by (cases rule: recvMsg_cases[where env = env and cs = cs])
     (simp_all add: recvMsg_first_read_error recvMsg_first_read_EOF recvMsg_message_streaming
        recvMsg_message_unary stream_inv_finish stream_inv_emit split: option.split)

subsection \<open>Every operation keeps the invariant\<close>

lemma stream_inv_Header: "stream_inv cs \<Longrightarrow> stream_inv (fst (Header chz herr cs))"
  by (auto simp: Header_def stream_inv_finish split: option.splits)

lemma stream_inv_closeSend: "stream_inv cs \<Longrightarrow> stream_inv (closeSend cs)"
  by (simp add: closeSend_def stream_inv_emit stream_inv_sentLast)

lemma stream_inv_apply_op: "stream_inv cs \<Longrightarrow> stream_inv (apply_op chz mh cs op)"
  by (cases op)
     (simp_all add: stream_inv_sendMsg stream_inv_recvMsg stream_inv_Header
        stream_inv_closeSend stream_inv_finish)

lemma stream_inv_run_ops: "stream_inv cs \<Longrightarrow> stream_inv (run_ops chz mh cs ops)"
  unfolding run_ops_def
  by (induction ops arbitrary: cs) (simp_all add: stream_inv_apply_op)

subsection \<open>The loop of invoke\<close>

lemma invoke_loop_second:
  "invoke_loop chz mh env False k n =
     \<lparr>returned = attempt_error chz mh (env k), iterations = Suc k,
      streams = n + stream_created (env k)\<rparr>"
  by (subst invoke_loop.simps)
     (simp add: attempt_error_def stream_created_def split: sum.split prod.split option.split)

lemma invoke_loop_first:
  "invoke_loop chz mh env True k n =
     (if retry_condition chz mh (env k) then invoke_loop chz mh env False (Suc k) (Suc n)
      else \<lparr>returned = attempt_error chz mh (env k), iterations = Suc k,
            streams = n + stream_created (env k)\<rparr>)"
  by (subst invoke_loop.simps)
     (simp add: attempt_error_def retry_condition_def stream_created_def
        split: sum.split prod.split option.split)

lemma stream_created_le: "stream_created ae \<le> 1"
  by (simp add: stream_created_def split: sum.split)

lemma invoke_unrolled:
  "invoke chz mh env =
     (if retry_condition chz mh (env 0)
      then \<lparr>returned = attempt_error chz mh (env 1), iterations = 2,
            streams = 1 + stream_created (env 1)\<rparr>
      else \<lparr>returned = attempt_error chz mh (env 0), iterations = 1,
            streams = stream_created (env 0)\<rparr>)"
  by (simp add: invoke_def invoke_loop_first invoke_loop_second)

lemma retry_condition_D:
  assumes "retry_condition chz mh ae"
  shows "\<exists>cs0. new_stream ae = Inr cs0 \<and> \<not> failFast (c cs0) \<and> attempt_error chz mh ae \<noteq> None
           \<and> (unprocessed_after_send ae \<or> unprocessed_after_recv ae)"
proof (cases "new_stream ae")
  case (Inl e)
  with assms show ?thesis by (simp add: retry_condition_def)
next
  case (Inr cs0)
  obtain cs1 r1 where s: "sendMsg chz mh (send_env ae) (cs0\<lparr>desc := unaryStreamDesc\<rparr>) = (cs1, r1)"
    by (cases "sendMsg chz mh (send_env ae) (cs0\<lparr>desc := unaryStreamDesc\<rparr>)")
  from c_sendMsg[of chz mh "send_env ae" "cs0\<lparr>desc := unaryStreamDesc\<rparr>"] s
  have c1: "c cs1 = c cs0" by simp
  obtain cs2 r2 where r: "recvMsg chz (recv_env ae) cs1 = (cs2, r2)"
    by (cases "recvMsg chz (recv_env ae) cs1")
  from c_recvMsg[of chz "recv_env ae" cs1] r c1 have c2: "c cs2 = c cs0" by simp
  from assms Inr s r c1 c2 show ?thesis
    by (cases r1; cases r2) (simp_all add: retry_condition_def attempt_error_def)
qed

subsection \<open>The channels of the resolver wrapper\<close>









lemma parseDuration_int64:
  assumes "parseDuration (Some s) = Inr (Some d)"
  shows "- (2 ^ 63) \<le> d \<and> d < 2 ^ 63"
proof -
  have whole: "\<bar>numeral_value ip * 10 ^ 9\<bar> \<le> 2 ^ 31 * 10 ^ 9" if "ip = [] \<or> int32_numeral ip" for ip
  proof -
    from that have "\<bar>numeral_value ip\<bar> \<le> 2 ^ 31"
      by (auto simp: numeral_value_Nil int32_numeral_def)
    then show ?thesis by (simp add: abs_mult)
  qed
  have frac: "\<bar>numeral_value fp * 10 ^ (9 - length fp)\<bar> \<le> 10 ^ 9"
    if "fp = [] \<or> length fp \<le> 9 \<and> signed_numeral fp" for fp
  proof (cases "fp = []")
    case True
    then show ?thesis by (simp add: numeral_value_Nil)
  next
    case False
    with that have len: "length fp \<le> 9" and sn: "signed_numeral fp" by simp_all
    from numeral_value_bound[OF sn] have "\<bar>numeral_value fp\<bar> \<le> 10 ^ length fp" by simp
    then have "\<bar>numeral_value fp\<bar> * 10 ^ (9 - length fp) \<le> 10 ^ length fp * 10 ^ (9 - length fp)"
      by (rule mult_right_mono) simp
    also have "\<dots> = (10::int) ^ 9" using len by (simp add: power_add[symmetric])
    finally show ?thesis by (simp add: abs_mult)
  qed
  from assms consider
    (A) ip where "int32_numeral ip" "d = numeral_value ip * 10 ^ 9"
  | (B) ip fp where "ip = [] \<or> int32_numeral ip" "fp = [] \<or> length fp \<le> 9 \<and> signed_numeral fp"
      "d = numeral_value ip * 10 ^ 9 + numeral_value fp * 10 ^ (9 - length fp)"
    unfolding parseDuration_accepts by blast
  then have "\<bar>d\<bar> \<le> 2 ^ 31 * 10 ^ 9 + 10 ^ 9"
  proof cases
    case (A ip)
    with whole[of ip] show ?thesis by simp
  next
    case (B ip fp)
    with whole[of ip] frac[of fp] show ?thesis by linarith
  qed
  then show ?thesis by (simp add: abs_le_iff)
qed

lemma foldl_dec_step_zeros:
  "foldl dec_step n (replicate k (CHR ''0'')) = n * 10 ^ k"
  by (induction k arbitrary: n) (simp_all add: dec_step_def digit_val_def)

lemma dec_value_padded:
  "dec_value (ds @ replicate k (CHR ''0'')) = dec_value ds * 10 ^ k"
  by (simp add: dec_value_def foldl_dec_step_zeros)

lemma digits_unsigned:
  assumes "list_all is_digit t"
  shows "strip_sign t = t" and "\<not> is_negative t" and "numeral_value t = int (dec_value t)"
proof -
  show 1: "strip_sign t = t" using assms
    by (cases t) (auto simp: strip_sign_def is_digit_def)
  show 2: "\<not> is_negative t" using assms
    by (cases t) (auto simp: is_negative_def is_digit_def)
  from 1 2 show "numeral_value t = int (dec_value t)" by (simp add: numeral_value_def)
qed

lemma digits_int32_numeral:
  assumes "list_all is_digit t" and "t \<noteq> []"
  shows "int32_numeral t \<longleftrightarrow> dec_value t < 2 ^ 31"
proof -
  have "int (dec_value t) < 2 ^ 31 \<longleftrightarrow> dec_value t < 2 ^ 31"
    by (metis of_nat_less_iff of_nat_numeral of_nat_power)
  with assms digits_unsigned[OF assms(1)] show ?thesis
    by (simp add: int32_numeral_def signed_numeral_def)
qed

lemma parseDuration_on_spec_grammar:
  assumes "spec_duration_grammar s"
  shows "parseDuration (Some s) = Inr (Some d) \<longleftrightarrow>
           dec_value (spec_whole s) < 2 ^ 31 \<and> d = spec_duration_nanos s"
proof -
  define body where "body = butlast s"
  define ip where "ip = takeWhile (\<lambda>x. x \<noteq> CHR ''.'') body"
  define rest where "rest = dropWhile (\<lambda>x. x \<noteq> CHR ''.'') body"
  define fp where "fp = tl rest"
  from assms have suf: "HasSuffix s ''s''" and dip: "list_all is_digit ip"
    and dfp: "list_all is_digit fp" and len: "length fp \<le> 9" and some: "ip \<noteq> [] \<or> fp \<noteq> []"
    by (simp_all add: spec_duration_grammar_def spec_whole_def spec_fraction_def
        body_def ip_def rest_def fp_def)
  from suf obtain b where "s = b @ ''s''" by (auto simp: HasSuffix_s_iff)
  then have s: "s = body @ ''s''" by (simp add: body_def)
  have split: "body = ip @ rest" by (simp add: ip_def rest_def)
  have nip: "CHR ''.'' \<notin> set ip" by (rule is_digit_not_dot[OF dip])
  have nfp: "CHR ''.'' \<notin> set fp" by (rule is_digit_not_dot[OF dfp])
  note uip = digits_unsigned[OF dip] and ufp = digits_unsigned[OF dfp]
  have main: "parseDuration (Some s) = Inr (Some d) \<longleftrightarrow>
           dec_value ip < 2 ^ 31
           \<and> d = int (dec_value ip) * 10 ^ 9 + int (dec_value fp) * 10 ^ (9 - length fp)"
  proof (cases rest)
    case Nil
    then have fp0: "fp = []" and b: "body = ip" using split by (simp_all add: fp_def)
    with some have ne: "ip \<noteq> []" by simp
    from parseDuration_no_dot_iff[OF nip, of d] digits_int32_numeral[OF dip ne] uip(3)
    show ?thesis unfolding s b by (simp add: fp0 dec_value_def)
  next
    case (Cons x r)
    then have "x = CHR ''.''"
      using hd_dropWhile[of "\<lambda>x. x \<noteq> CHR ''.''" body] by (simp add: rest_def)
    with Cons split have b: "body = ip @ ''.'' @ fp" by (simp add: fp_def)
    have fpn: "fp \<noteq> [] \<Longrightarrow> signed_numeral fp"
      using dfp ufp(1) by (simp add: signed_numeral_def)
    have ipn: "ip = [] \<or> int32_numeral ip \<longleftrightarrow> dec_value ip < 2 ^ 31"
      using digits_int32_numeral[OF dip] by (cases "ip = []") (simp_all add: dec_value_def)
    from parseDuration_one_dot_iff[OF nip nfp, of d] ipn fpn len some uip(3) ufp(3)
    show ?thesis unfolding s b by auto
  qed
  have "int (dec_value (fp @ replicate (9 - length fp) (CHR ''0'')))
        = int (dec_value fp) * 10 ^ (9 - length fp)"
    by (simp add: dec_value_padded)
  with main show ?thesis
    by (simp add: spec_duration_nanos_def spec_whole_def spec_fraction_def
        ip_def fp_def rest_def body_def)
qed

lemma parseTarget_no_scheme:
  "\<not> Contains target ''://'' \<Longrightarrow>
     parseTarget target = \<lparr>Scheme = [], Authority = [], Endpoint = target\<rparr>"
  by (simp add: Contains_def parseTarget_def split2_None)

lemma parseTarget_no_slash:
  assumes "\<not> Contains scheme ''://''" and "CHR ''/'' \<notin> set rest"
  shows "parseTarget (scheme @ ''://'' @ rest)
         = \<lparr>Scheme = [], Authority = [], Endpoint = scheme @ ''://'' @ rest\<rparr>"
proof -
  have 1: "split2 (scheme @ ''://'' @ rest) ''://'' = (scheme, rest, True)"
    using split2_Some[OF Index_scheme_sep[OF assms(1), of rest]] by simp
  have 2: "split2 rest ''/'' = ([], [], False)"
    by (rule split2_None[OF Index_slash_None[OF assms(2)]])
  show ?thesis unfolding parseTarget_def 1 prod.case 2 by simp
qed


section \<open>The claims\<close>

text \<open>
  C1. For every client stream, \<open>finish\<close> is idempotent. The first call sets the
  \<open>finished\<close> flag and performs the termination actions: it closes the transport stream
  with the final error (the end-of-stream marker normalised to nil), calls the attempt's
  done callback when there is one, the stats handler and the tracer when present, the
  after hook of every call option, and the cancel function of the context. A call on a
  finished stream changes nothing, so a second call after a first has no effect. For a
  new stream and every sequence of operations on it (\<open>SendMsg\<close>, \<open>RecvMsg\<close>, \<open>Header\<close>,
  \<open>CloseSend\<close> and direct calls of \<open>finish\<close>), the transport stream is closed at most
  once, the done callback and the after hook of each option are called at most once, and
  the context is cancelled exactly once if the stream is finished and not at all
  otherwise.
\<close>

theorem finish_idempotent:
  "(\<not> finished cs \<longrightarrow>
      finished (finish chz cs e)
      \<and> log (finish chz cs e) = log cs @ finish_events chz cs (normalise_EOF e))
   \<and> (finished cs \<longrightarrow> finish chz cs e = cs)
   \<and> finish chz (finish chz cs e) e' = finish chz cs e
   \<and> (\<not> finished cs \<and> log cs = [] \<longrightarrow>
        at_most_once (log (run_ops chz mh cs ops))
        \<and> (finished (run_ops chz mh cs ops)
             \<longleftrightarrow> count_list (log (run_ops chz mh cs ops)) Cancel = 1))"
proof -
  have "at_most_once (log (run_ops chz mh cs ops))
        \<and> (finished (run_ops chz mh cs ops)
             \<longleftrightarrow> count_list (log (run_ops chz mh cs ops)) Cancel = 1)"
    if fresh: "\<not> finished cs" "log cs = []"
  proof -
    from fresh have "stream_inv cs" by (simp add: stream_inv_def)
    then have inv: "stream_inv (run_ops chz mh cs ops)" by (rule stream_inv_run_ops)
    show ?thesis
    proof (cases "finished (run_ops chz mh cs ops)")
      case True
      with inv show ?thesis by (simp add: stream_inv_def)
    next
      case False
      with inv have "filter is_termination (log (run_ops chz mh cs ops)) = []"
        by (simp add: stream_inv_def)
      from no_termination_counts(1)[OF this] stream_inv_at_most_once[OF inv] False
      show ?thesis by simp
    qed
  qed
  then show ?thesis
    by (simp add: finish_finished finish_first finish_idem)
qed

theorem finish_idempotent_witness:
  "finished (finish False example_stream (Some EOF))
   \<and> log (finish False example_stream (Some EOF))
       = [CloseStream None, BalancerDone None True False, OptionAfter 0, OptionAfter 1, Cancel]
   \<and> finish False (finish False example_stream (Some EOF)) (Some ContextCanceled)
       = finish False example_stream (Some EOF)
   \<and> at_most_once (log (run_ops False example_msgHeader example_stream
                          [OpFinish (Some EOF), OpFinish (Some ContextCanceled), OpCloseSend]))
   \<and> count_list (log (run_ops False example_msgHeader example_stream
                          [OpFinish (Some EOF), OpFinish (Some ContextCanceled), OpCloseSend]))
        Cancel = 1"
proof -
  have fresh: "\<not> finished example_stream" "log example_stream = []"
    by (simp_all add: example_stream_def)
  have ev: "finish_events False example_stream (normalise_EOF (Some EOF))
            = [CloseStream None, BalancerDone None True False, OptionAfter 0, OptionAfter 1, Cancel]"
    by (simp add: finish_events_def normalise_EOF_def example_stream_def upt_rec)
  have fin: "finished (run_ops False example_msgHeader example_stream
                          [OpFinish (Some EOF), OpFinish (Some ContextCanceled), OpCloseSend])"
    by (simp add: run_ops_def closeSend_def emit_def finished_finish)
  from finish_idempotent[where cs = example_stream and chz = False and e = "Some EOF"
      and e' = "Some ContextCanceled" and mh = example_msgHeader
      and ops = "[OpFinish (Some EOF), OpFinish (Some ContextCanceled), OpCloseSend]"]
    fresh ev fin
  show ?thesis by simp
qed

text \<open>
  C2. For every unary call and every behaviour of the environment, the loop of \<open>invoke\<close>
  runs at most twice and creates at most two client streams. It runs a second time
  exactly when the first attempt ends in an error of \<open>SendMsg\<close> or \<open>RecvMsg\<close> on a
  stream that is not fail-fast and that the transport reports as unprocessed; such an
  attempt has created a stream. The call then returns what the second attempt alone
  yields; otherwise it returns what the first attempt yields. An iteration entered with
  \<open>firstAttempt\<close> false always returns.
\<close>

theorem invoke_at_most_two_streams:
  "iterations (invoke chz mh env) \<le> 2
   \<and> streams (invoke chz mh env) \<le> 2
   \<and> (iterations (invoke chz mh env) = 2 \<longleftrightarrow> retry_condition chz mh (env 0))
   \<and> (retry_condition chz mh (env 0) \<longrightarrow>
        (\<exists>cs0. new_stream (env 0) = Inr cs0 \<and> \<not> failFast (c cs0))
        \<and> attempt_error chz mh (env 0) \<noteq> None
        \<and> (unprocessed_after_send (env 0) \<or> unprocessed_after_recv (env 0))
        \<and> returned (invoke chz mh env) = attempt_error chz mh (env 1))
   \<and> (\<not> retry_condition chz mh (env 0) \<longrightarrow>
        iterations (invoke chz mh env) = 1
        \<and> returned (invoke chz mh env) = attempt_error chz mh (env 0))
   \<and> iterations (invoke_loop chz mh env False k n) = Suc k
   \<and> returned (invoke_loop chz mh env False k n) = attempt_error chz mh (env k)"
  using stream_created_le[of "env 0"] stream_created_le[of "env 1"]
    retry_condition_D[of chz mh "env 0"]
  by (auto simp: invoke_unrolled invoke_loop_second)

theorem invoke_at_most_two_streams_witness:
  "retry_condition False example_msgHeader (example_attempts 0)
   \<and> iterations (invoke False example_msgHeader example_attempts) = 2
   \<and> streams (invoke False example_msgHeader example_attempts) \<le> 2
   \<and> attempt_error False example_msgHeader (example_attempts 0)
       = Some (StatusErr Unavailable ''transport is closing'')
   \<and> returned (invoke False example_msgHeader example_attempts) = None"
proof -
  define cs1 where "cs1 = emit [Write (replicate 5 (CHR ''h'')) ''request'' True]
                            (example_stream\<lparr>sentLast := True\<rparr>)"
  define unavailable where "unavailable = StatusErr Unavailable ''transport is closing''"
  have s0: "sendMsg False example_msgHeader (send_env (example_attempts 0))
              (example_stream\<lparr>desc := unaryStreamDesc\<rparr>) = (cs1, None)"
    by (simp add: sendMsg_def sendMsg_body_def sendMsg_deferred_def example_attempts_def
        example_stream_def example_msgHeader_def unaryStreamDesc_def emit_def Let_def cs1_def)
  have r0: "recvMsg False (recv_env (example_attempts 0)) cs1
            = (finish False cs1 (Some unavailable), Some unavailable)"
    using recvMsg_first_read_error[of "recv_env (example_attempts 0)"
        "ConnectionErr ''transport is closing''" False cs1]
    by (simp add: example_attempts_def unavailable_def)
  have ff: "\<not> failFast (c (finish False cs1 (Some unavailable)))"
    by (simp add: c_finish cs1_def emit_def example_stream_def)
  have up: "unprocessed_after_recv (example_attempts 0)"
    by (simp add: example_attempts_def)
  have ns: "new_stream (example_attempts 0) = Inr example_stream"
    by (simp add: example_attempts_def)
  have retry: "retry_condition False example_msgHeader (example_attempts 0)"
    by (simp add: retry_condition_def ns s0 r0 ff up)
  have e0: "attempt_error False example_msgHeader (example_attempts 0)
            = Some (StatusErr Unavailable ''transport is closing'')"
    by (simp add: attempt_error_def ns s0 r0) (simp add: unavailable_def)
  have e1: "attempt_error False example_msgHeader (example_attempts 1) = None"
    by (simp add: attempt_error_def sendMsg_def sendMsg_body_def sendMsg_deferred_def
        recvMsg_message_unary second_read_error_def Status_Err_def
        example_attempts_def example_stream_def example_msgHeader_def unaryStreamDesc_def
        emit_def Let_def)
  from invoke_at_most_two_streams[where chz = False and mh = example_msgHeader
      and env = example_attempts and k = 0 and n = 0] retry e0 e1
  show ?thesis by simp
qed



text \<open>
  C4 as stated fails. On a call that does not stream responses, when the first framed
  read succeeds and the second read yields another message, \<open>RecvMsg\<close> returns the plain
  protocol-violation error passed through \<open>toRPCErr\<close>, which gives it the status code
  \<open>Unknown\<close>: the returned error does not carry \<open>Internal\<close>.
\<close>

theorem recvMsg_extra_message_counterexample:
  "\<not> carries_code
       (snd (recvMsg False \<lparr>recv1 = None, recv2 = None, status = (OK, [])\<rparr> example_stream))
       Internal"
  by (simp add: recvMsg_message_unary second_read_error_def protocol_violation_def
      example_stream_def unaryStreamDesc_def)

text \<open>
  C4, amended. For every stream that does not stream responses and whose first framed
  read succeeds, \<open>RecvMsg\<close> performs a second framed read and finishes the stream. If
  that read yields another message, \<open>RecvMsg\<close> returns an error carrying the status code
  \<open>Unknown\<close>; if it yields the end-of-stream marker, \<open>RecvMsg\<close> returns the error of the
  stream's final status, which is nil for the status \<open>OK\<close>; any other error of the
  second read is returned converted by \<open>toRPCErr\<close>.
\<close>

theorem recvMsg_second_read:
  "\<not> ServerStreams (desc cs) \<and> recv1 env = None \<longrightarrow>
     (recv2 env = None \<longrightarrow> carries_code (snd (recvMsg chz env cs)) Unknown)
     \<and> (recv2 env = Some EOF \<longrightarrow>
          snd (recvMsg chz env cs) = Status_Err (status env)
          \<and> (fst (status env) = OK \<longrightarrow> snd (recvMsg chz env cs) = None)
          \<and> (fst (status env) \<noteq> OK \<longrightarrow>
                snd (recvMsg chz env cs) = Some (StatusErr (fst (status env)) (snd (status env)))))
     \<and> (\<forall>e. recv2 env = Some e \<and> e \<noteq> EOF \<longrightarrow> snd (recvMsg chz env cs) = Some (toRPCErr e))
     \<and> finished (fst (recvMsg chz env cs))"
  by (auto simp: recvMsg_message_unary second_read_error_def protocol_violation_def
      Status_Err_def finished_finish)

theorem recvMsg_second_read_witness:
  "carries_code
     (snd (recvMsg False \<lparr>recv1 = None, recv2 = None, status = (OK, [])\<rparr> example_stream))
     Unknown
   \<and> snd (recvMsg False \<lparr>recv1 = None, recv2 = Some EOF, status = (OK, [])\<rparr> example_stream)
       = None
   \<and> finished (fst (recvMsg False \<lparr>recv1 = None, recv2 = Some EOF, status = (OK, [])\<rparr>
                      example_stream))"
proof -
  have unary: "\<not> ServerStreams (desc example_stream)"
    by (simp add: example_stream_def unaryStreamDesc_def)
  from recvMsg_second_read[where cs = example_stream and chz = False
      and env = "\<lparr>recv1 = None, recv2 = None, status = (OK, [])\<rparr>"]
    recvMsg_second_read[where cs = example_stream and chz = False
      and env = "\<lparr>recv1 = None, recv2 = Some EOF, status = (OK, [])\<rparr>"]
    unary
  show ?thesis by (simp add: Status_Err_def)
qed

text \<open>
  C5. For every message whose encoding and compression succeed and whose framed payload
  is longer than the \<open>maxSendMessageSize\<close> of the call, \<open>SendMsg\<close> returns an error with
  the status code \<open>ResourceExhausted\<close> and makes no \<open>Write\<close> call on the transport.
\<close>

theorem sendMsg_max_size:
  "encode_res env = Inr d \<and> compress_res env = Inr cd
   \<and> int (length (snd (mh d cd))) > maxSendMessageSize (c cs) \<longrightarrow>
     carries_code (snd (sendMsg chz mh env cs)) ResourceExhausted
     \<and> filter is_Write (log (fst (sendMsg chz mh env cs))) = filter is_Write (log cs)"
proof
  assume a: "encode_res env = Inr d \<and> compress_res env = Inr cd
   \<and> int (length (snd (mh d cd))) > maxSendMessageSize (c cs)"
  then have "sendMsg_body chz mh env cs = (cs, Some too_large)"
    by (cases rule: sendMsg_body_cases[where env = env and chz = chz and mh = mh and cs = cs]) simp_all
  then have "sendMsg chz mh env cs = (finish chz cs (Some too_large), Some too_large)"
    by (simp add: sendMsg_def sendMsg_deferred_error too_large_def)
  then show "carries_code (snd (sendMsg chz mh env cs)) ResourceExhausted
     \<and> filter is_Write (log (fst (sendMsg chz mh env cs))) = filter is_Write (log cs)"
    by (simp add: filter_Write_finish) (simp add: too_large_def)
qed

theorem sendMsg_max_size_witness:
  "the (getMaxSize (Some 16) None 4194304) = maxSendMessageSize (c example_stream)
   \<and> carries_code
       (snd (sendMsg False example_msgHeader
               \<lparr>encode_res = Inr (replicate 32 (CHR ''x'')), compress_res = Inr None,
                write_res = None\<rparr> example_stream))
       ResourceExhausted
   \<and> filter is_Write
       (log (fst (sendMsg False example_msgHeader
                    \<lparr>encode_res = Inr (replicate 32 (CHR ''x'')), compress_res = Inr None,
                     write_res = None\<rparr> example_stream))) = []"
proof -
  have big: "int (length (snd (example_msgHeader (replicate 32 (CHR ''x'')) None)))
             > maxSendMessageSize (c example_stream)"
    by (simp add: example_msgHeader_def example_stream_def)
  have lg: "log example_stream = []" by (simp add: example_stream_def)
  have mx: "the (getMaxSize (Some 16) None 4194304) = maxSendMessageSize (c example_stream)"
    by (simp add: getMaxSize_def example_stream_def)
  from sendMsg_max_size[where env = "\<lparr>encode_res = Inr (replicate 32 (CHR ''x'')),
        compress_res = Inr None, write_res = None\<rparr>"
      and d = "replicate 32 (CHR ''x'')" and cd = None and mh = example_msgHeader
      and cs = example_stream and chz = False]
    big lg mx
  show ?thesis by simp
qed

text \<open>
  C6. For every pair of optional sizes and every default value, \<open>getMaxSize\<close> returns the
  minimum of the two values when both are set, the one that is set when exactly one is,
  and the default when neither is; the result is never nil.
\<close>

theorem getMaxSize_cases:
  "getMaxSize (Some a) (Some b) d = Some (min a b)
   \<and> getMaxSize (Some a) None d = Some a
   \<and> getMaxSize None (Some b) d = Some b
   \<and> getMaxSize None None d = Some d"
  by (simp add: getMaxSize_def min_ptr_def min_def)

text \<open>
  C7 as stated fails in both directions. The string \<open>2147483648s\<close> is in the grammar of
  the specification, and \<open>parseDuration\<close> rejects it, the whole part being parsed as a
  32-bit integer. The string \<open>-1s\<close> is not in the grammar, and \<open>parseDuration\<close> accepts
  it with the value of minus one second.
\<close>

theorem parseDuration_grammar_counterexample:
  "spec_duration_grammar ''2147483648s''
   \<and> parseDuration (Some ''2147483648s'') = Inl (MalformedNum ''2147483648s'' ErrRange)
   \<and> \<not> spec_duration_grammar ''-1s''
   \<and> parseDuration (Some ''-1s'') = Inr (Some (- 1000000000))"
  by (simp add: duration_eval spec_duration_grammar_def spec_whole_def spec_fraction_def)

text \<open>
  C7, amended. \<open>parseDuration\<close> accepts exactly the strings that end in \<open>s\<close> and whose
  body has at most one decimal point, where a whole part, if there is one, is a decimal
  numeral with an optional sign (\<open>+\<close> or \<open>-\<close>) whose value is in the range of a 32-bit
  integer, a fractional part, if there is one, has at most nine characters and is a
  decimal numeral with an optional sign, and at least one of the two parts is there. The
  result is the whole part times \<open>10^9\<close> plus the fractional numeral times ten to the
  power of nine minus its length, in nanoseconds. On the strings of the specification's
  grammar it accepts exactly those whose whole part is below \<open>2^31\<close>, with the value
  that the grammar gives them. It accepts \<open>1s\<close>, \<open>0.500s\<close> and
  \<open>1.000000001s\<close> with their canonical values, and rejects \<open>1\<close>, \<open>s\<close>, \<open>1.2.3s\<close> and
  every string whose fractional part is longer than nine characters.
\<close>

theorem parseDuration_accepted_strings:
  "(parseDuration (Some s) = Inr (Some d) \<longleftrightarrow>
      (\<exists>ip. s = ip @ ''s'' \<and> CHR ''.'' \<notin> set ip \<and> int32_numeral ip
            \<and> d = numeral_value ip * 10 ^ 9)
      \<or> (\<exists>ip fp. s = ip @ ''.'' @ fp @ ''s'' \<and> CHR ''.'' \<notin> set ip \<and> CHR ''.'' \<notin> set fp
            \<and> (ip = [] \<or> int32_numeral ip)
            \<and> (fp = [] \<or> length fp \<le> 9 \<and> signed_numeral fp)
            \<and> (ip \<noteq> [] \<or> fp \<noteq> [])
            \<and> d = numeral_value ip * 10 ^ 9 + numeral_value fp * 10 ^ (9 - length fp)))
   \<and> (spec_duration_grammar s \<longrightarrow>
        (parseDuration (Some s) = Inr (Some d)
           \<longleftrightarrow> dec_value (spec_whole s) < 2 ^ 31 \<and> d = spec_duration_nanos s))
   \<and> parseDuration (Some ''1s'') = Inr (Some 1000000000)
   \<and> parseDuration (Some ''0.500s'') = Inr (Some 500000000)
   \<and> parseDuration (Some ''1.000000001s'') = Inr (Some 1000000001)
   \<and> parseDuration (Some ''1'') = Inl (Malformed ''1'')
   \<and> parseDuration (Some ''s'') = Inl (Malformed ''s'')
   \<and> parseDuration (Some ''1.2.3s'') = Inl (Malformed ''1.2.3s'')
   \<and> (length fp' > 9 \<longrightarrow> parseDuration (Some (ip' @ ''.'' @ fp' @ ''s'')) \<noteq> Inr (Some d'))"
proof (intro conjI)
  show "spec_duration_grammar s \<longrightarrow>
        (parseDuration (Some s) = Inr (Some d)
           \<longleftrightarrow> dec_value (spec_whole s) < 2 ^ 31 \<and> d = spec_duration_nanos s)"
    using parseDuration_on_spec_grammar[of s d] by blast
  show "parseDuration (Some s) = Inr (Some d) \<longleftrightarrow>
      (\<exists>ip. s = ip @ ''s'' \<and> CHR ''.'' \<notin> set ip \<and> int32_numeral ip
            \<and> d = numeral_value ip * 10 ^ 9)
      \<or> (\<exists>ip fp. s = ip @ ''.'' @ fp @ ''s'' \<and> CHR ''.'' \<notin> set ip \<and> CHR ''.'' \<notin> set fp
            \<and> (ip = [] \<or> int32_numeral ip)
            \<and> (fp = [] \<or> length fp \<le> 9 \<and> signed_numeral fp)
            \<and> (ip \<noteq> [] \<or> fp \<noteq> [])
            \<and> d = numeral_value ip * 10 ^ 9 + numeral_value fp * 10 ^ (9 - length fp))"
    by (rule parseDuration_accepts)
  show "parseDuration (Some ''1s'') = Inr (Some 1000000000)"
    by (simp add: duration_eval)
  show "parseDuration (Some ''0.500s'') = Inr (Some 500000000)"
    by (simp add: duration_eval)
  show "parseDuration (Some ''1.000000001s'') = Inr (Some 1000000001)"
    by (simp add: duration_eval)
  show "parseDuration (Some ''1'') = Inl (Malformed ''1'')"
    by (simp add: duration_eval)
  show "parseDuration (Some ''s'') = Inl (Malformed ''s'')"
    by (simp add: duration_eval)
  show "parseDuration (Some ''1.2.3s'') = Inl (Malformed ''1.2.3s'')"
    by (simp add: duration_eval)
  show "length fp' > 9 \<longrightarrow> parseDuration (Some (ip' @ ''.'' @ fp' @ ''s'')) \<noteq> Inr (Some d')"
    using parseDuration_long_fraction[of fp' ip' d'] by blast
qed

theorem parseDuration_accepted_strings_witness:
  "parseDuration (Some ''+12.25s'') = Inr (Some 12250000000)
   \<and> parseDuration (Some ''1.0000000001s'') \<noteq> Inr (Some 1000000000)
   \<and> spec_duration_grammar ''0.050s''
   \<and> parseDuration (Some ''0.050s'') = Inr (Some 50000000)"
proof -
  have g: "spec_duration_grammar ''0.050s''"
    by (simp add: spec_duration_grammar_def spec_whole_def spec_fraction_def HasSuffix_def
        is_digit_def)
  have v: "dec_value (spec_whole ''0.050s'') < 2 ^ 31
           \<and> (50000000 :: int) = spec_duration_nanos ''0.050s''"
    by (simp add: spec_duration_nanos_def spec_whole_def spec_fraction_def dec_value_def
        foldl_dec_step_zeros dec_step_def digit_val_def)
  have "''+12.25s'' = ''+12'' @ ''.'' @ ''25'' @ ''s'' \<and> CHR ''.'' \<notin> set ''+12''
        \<and> CHR ''.'' \<notin> set ''25''
        \<and> (''+12'' = [] \<or> int32_numeral ''+12'')
        \<and> (''25'' = [] \<or> length ''25'' \<le> 9 \<and> signed_numeral ''25'')
        \<and> (''+12'' \<noteq> [] \<or> ''25'' \<noteq> [])
        \<and> (12250000000 :: int)
            = numeral_value ''+12'' * 10 ^ 9 + numeral_value ''25'' * 10 ^ (9 - length ''25'')"
    by (simp add: int32_numeral_def signed_numeral_def numeral_value_def strip_sign_def
        is_negative_def dec_value_def dec_step_def digit_val_def is_digit_def)
  then have rhs: "\<exists>ip fp. ''+12.25s'' = ip @ ''.'' @ fp @ ''s'' \<and> CHR ''.'' \<notin> set ip
        \<and> CHR ''.'' \<notin> set fp
        \<and> (ip = [] \<or> int32_numeral ip)
        \<and> (fp = [] \<or> length fp \<le> 9 \<and> signed_numeral fp)
        \<and> (ip \<noteq> [] \<or> fp \<noteq> [])
        \<and> (12250000000 :: int)
            = numeral_value ip * 10 ^ 9 + numeral_value fp * 10 ^ (9 - length fp)"
    by blast
  have long: "length ''0000000001'' > 9" by simp
  from parseDuration_accepted_strings[where s = "''+12.25s''" and d = 12250000000
      and fp' = "''0000000001''" and ip' = "''1''" and d' = 1000000000] rhs long
  have 1: "parseDuration (Some ''+12.25s'') = Inr (Some 12250000000)
           \<and> parseDuration (Some ''1.0000000001s'') \<noteq> Inr (Some 1000000000)"
    by simp
  from parseDuration_accepted_strings[where s = "''0.050s''" and d = 50000000
      and fp' = "''0000000001''" and ip' = "''1''" and d' = 1000000000] g v
  have 2: "parseDuration (Some ''0.050s'') = Inr (Some 50000000)" by blast
  from 1 2 g show ?thesis by simp
qed

text \<open>
  C8. For every target string: when it does not contain \<open>://\<close>, \<open>parseTarget\<close> returns
  the target as endpoint, with empty scheme and authority; when there is no \<open>/\<close> after
  its first \<open>://\<close>, likewise; on \<open>scheme://authority/endpoint\<close>, where the scheme does
  not contain \<open>://\<close> and the authority does not contain \<open>/\<close>, it returns that triple.
  Whenever the result is not the fallback, the string reassembled from it is the target
  itself, and parsing the string reassembled from any result yields that result again.
\<close>

theorem parseTarget_cases:
  "(\<not> Contains target ''://'' \<longrightarrow>
      parseTarget target = \<lparr>Scheme = [], Authority = [], Endpoint = target\<rparr>)
   \<and> (\<not> Contains scheme ''://'' \<and> CHR ''/'' \<notin> set rest \<longrightarrow>
        parseTarget (scheme @ ''://'' @ rest)
          = \<lparr>Scheme = [], Authority = [], Endpoint = scheme @ ''://'' @ rest\<rparr>)
   \<and> (\<not> Contains scheme ''://'' \<and> CHR ''/'' \<notin> set authority \<longrightarrow>
        parseTarget (scheme @ ''://'' @ authority @ ''/'' @ endpoint)
          = \<lparr>Scheme = scheme, Authority = authority, Endpoint = endpoint\<rparr>)
   \<and> (parseTarget target = \<lparr>Scheme = [], Authority = [], Endpoint = target\<rparr>
        \<or> target_string (parseTarget target) = target)
   \<and> parseTarget (target_string (parseTarget target)) = parseTarget target"
  using parseTarget_no_scheme[of target] parseTarget_no_slash[of scheme rest]
    parseTarget_assembled[of scheme authority endpoint] parseTarget_decomp[of target]
    parseTarget_idem[of target]
  by blast

theorem parseTarget_cases_witness:
  "parseTarget ''localhost:8080'' = \<lparr>Scheme = [], Authority = [], Endpoint = ''localhost:8080''\<rparr>
   \<and> parseTarget (''dns'' @ ''://'' @ ''example.com'')
       = \<lparr>Scheme = [], Authority = [], Endpoint = ''dns'' @ ''://'' @ ''example.com''\<rparr>
   \<and> parseTarget (''dns'' @ ''://'' @ ''8.8.8.8'' @ ''/'' @ ''example.com:443'')
       = \<lparr>Scheme = ''dns'', Authority = ''8.8.8.8'', Endpoint = ''example.com:443''\<rparr>
   \<and> parseTarget (target_string (parseTarget ''localhost:8080'')) = parseTarget ''localhost:8080''"
proof -
  have 1: "\<not> Contains ''localhost:8080'' ''://''" by (simp add: Contains_def HasPrefix_def)
  have 2: "\<not> Contains ''dns'' ''://''" by (simp add: Contains_def HasPrefix_def)
  have 3: "CHR ''/'' \<notin> set ''example.com''" by simp
  have 4: "CHR ''/'' \<notin> set ''8.8.8.8''" by simp
  from parseTarget_cases[where target = "''localhost:8080''" and scheme = "''dns''"
      and rest = "''example.com''" and authority = "''8.8.8.8''"
      and endpoint = "''example.com:443''"] 1 2 3 4
  show ?thesis by blast
qed



text \<open>
  C10. \<open>parseDuration\<close> accepts a leading minus sign in the seconds part: \<open>-1s\<close> yields
  minus one second, and so does every non-empty digit string of value at most \<open>2^31\<close>
  after a minus sign, with its negated value. \<open>newClientStream\<close> derives a context with
  a timeout only from a timeout of the method configuration that is not negative; with
  a negative one it derives the context it derives when no timeout is configured.
\<close>

theorem parseDuration_negative_timeout:
  "parseDuration (Some ''-1s'') = Inr (Some (- 1000000000))
   \<and> (ds \<noteq> [] \<and> list_all is_digit ds \<and> dec_value ds \<le> 2 ^ 31 \<longrightarrow>
        parseDuration (Some (CHR ''-'' # ds @ ''s'')) = Inr (Some (- int (dec_value ds) * 10 ^ 9)))
   \<and> (Timeout mc = Some d \<and> d < 0 \<longrightarrow>
        newClientStream_context mc = WithCancel
        \<and> newClientStream_context mc = newClientStream_context (mc\<lparr>Timeout := None\<rparr>))
   \<and> (Timeout mc = Some d \<and> 0 \<le> d \<longrightarrow> newClientStream_context mc = WithTimeout d)"
proof (intro conjI impI)
  show "parseDuration (Some ''-1s'') = Inr (Some (- 1000000000))"
    by (simp add: duration_eval)
  show "parseDuration (Some (CHR ''-'' # ds @ ''s'')) = Inr (Some (- int (dec_value ds) * 10 ^ 9))"
    if "ds \<noteq> [] \<and> list_all is_digit ds \<and> dec_value ds \<le> 2 ^ 31"
    using that parseDuration_minus_digits[of ds] by blast
  show "newClientStream_context mc = WithCancel" if "Timeout mc = Some d \<and> d < 0"
    using that by (simp add: newClientStream_context_def)
  show "newClientStream_context mc = newClientStream_context (mc\<lparr>Timeout := None\<rparr>)"
    if "Timeout mc = Some d \<and> d < 0"
    using that by (simp add: newClientStream_context_def)
  show "newClientStream_context mc = WithTimeout d" if "Timeout mc = Some d \<and> 0 \<le> d"
    using that by (simp add: newClientStream_context_def)
qed

theorem parseDuration_negative_timeout_witness:
  "parseDuration (Some (CHR ''-'' # ''2147483648'' @ ''s'')) = Inr (Some (- 2147483648000000000))
   \<and> newClientStream_context
        \<lparr>WaitForReady = None, Timeout = Some (- 1000000000), MaxReqSize = None,
         MaxRespSize = None\<rparr> = WithCancel
   \<and> newClientStream_context
        \<lparr>WaitForReady = None, Timeout = Some 50000000, MaxReqSize = None, MaxRespSize = None\<rparr>
       = WithTimeout 50000000"
proof -
  have dg: "''2147483648'' \<noteq> [] \<and> list_all is_digit ''2147483648''
            \<and> dec_value ''2147483648'' \<le> 2 ^ 31"
    by (simp add: is_digit_def dec_value_def dec_step_def digit_val_def)
  have dv: "- int (dec_value ''2147483648'') * 10 ^ 9 = - 2147483648000000000"
    by (simp add: dec_value_def dec_step_def digit_val_def)
  from parseDuration_negative_timeout[where ds = "''2147483648''"
      and mc = "\<lparr>WaitForReady = None, Timeout = Some (- 1000000000), MaxReqSize = None,
        MaxRespSize = None\<rparr>" and d = "- 1000000000"]
    parseDuration_negative_timeout[where ds = "''2147483648''"
      and mc = "\<lparr>WaitForReady = None, Timeout = Some 50000000, MaxReqSize = None,
        MaxRespSize = None\<rparr>" and d = 50000000]
    dg dv
  show ?thesis by simp
qed

end
